theory Spec2Isabelle
  imports Complex_Main
begin

section \<open>Common data model\<close>

text \<open>
  The C sources are instantiated three times by the preprocessor (code points, bytes and
  generic Python objects).  The only difference between the instantiations is how two
  elements are compared: natively (\<open>seq1[i] != seq2[j]\<close>) or through the macro
  \<open>SEQUENCE_COMP\<close>, which yields \<open>1\<close> (equal), \<open>0\<close> (not equal) or \<open>-1\<close> (the comparison
  raised).  The embedding takes the comparison as a parameter; \<open>native_comp\<close> is the
  infallible native test.  Sequences are lists, \<open>Py_ssize_t\<close> values are integers
  (the lengths are those of objects held in memory, so no arithmetic below wraps).
  Loops are recursive functions over the loop index, arrays are lists updated in place.
  Where HOL already owns a name of the source, the variable is written \<open>cmp\<close> for
  \<open>comp\<close>, \<open>d\<close> for \<open>dist\<close>, \<open>lst\<close> for \<open>last\<close>, \<open>mn\<close> for \<open>min\<close> and \<open>lengths\<close> for
  the array \<open>length\<close>.
\<close>

type_synonym 'a comparator = "'a \<Rightarrow> 'a \<Rightarrow> int"

definition native_comp :: "'a comparator" where
  "native_comp x y = (if x = y then 1 else 0)"

text \<open>What a wrapper of \<open>distance.c\<close> hands back to its caller: a raised error or a value.\<close>

datatype error = LengthMismatch | ComparisonFailed | OutOfMemory | InvalidArgument

datatype pyval = PyInt int | PyFloat real

section \<open>Hamming distance (hamming.c, hamming_py)\<close>

function hamming_loop :: "'a comparator \<Rightarrow> 'a list \<Rightarrow> 'a list \<Rightarrow> nat \<Rightarrow> nat \<Rightarrow> int \<Rightarrow> int" where
  "hamming_loop cmp seq1 seq2 len i d =
     (if i < len then
        (let c = cmp (seq1 ! i) (seq2 ! i) in
         if c = -1 then -1
         else hamming_loop cmp seq1 seq2 len (i + 1) (if c = 0 then d + 1 else d))
      else d)"
  by pat_completeness auto
termination
  by (relation "measure (\<lambda>(cmp, seq1, seq2, len, i, d). len - i)") auto

declare hamming_loop.simps [simp del]

definition hamming :: "'a comparator \<Rightarrow> 'a list \<Rightarrow> 'a list \<Rightarrow> nat \<Rightarrow> int" where
  "hamming cmp seq1 seq2 len = hamming_loop cmp seq1 seq2 len 0 0"

definition hamming_py :: "'a comparator \<Rightarrow> 'a list \<Rightarrow> 'a list \<Rightarrow> bool \<Rightarrow> error + pyval" where
  "hamming_py cmp arg1 arg2 do_normalize =
     (let len1 = length arg1; len2 = length arg2 in
      if len1 \<noteq> len2 then Inl LengthMismatch
      else
        (let d = hamming cmp arg1 arg2 len1 in
         if d = -1 then Inl ComparisonFailed
         else if do_normalize then
           (if len1 = 0 then Inr (PyFloat 0)
            else Inr (PyFloat (real_of_int d / real len1)))
         else Inr (PyInt d)))"

section \<open>Levenshtein distance (levenshtein.c)\<close>

definition MIN3 :: "int \<Rightarrow> int \<Rightarrow> int \<Rightarrow> int" where
  "MIN3 a b c = (if a < b then (if a < c then a else c) else (if b < c then b else c))"

definition MAX3 :: "int \<Rightarrow> int \<Rightarrow> int \<Rightarrow> int" where
  "MAX3 a b c = (if a > b then (if a > c then a else c) else (if b > c then b else c))"

text \<open>
  A read of the scratch row at a C index.  Inside the block it yields the cell.  What a read
  outside the block yields is the parameter \<open>stray\<close>: \<open>None\<close> when the embedding treats
  the access as an error, \<open>Some w\<close> when the machine hands back the word \<open>w\<close> that happens
  to be stored there.
\<close>

definition column_at :: "int option \<Rightarrow> int list \<Rightarrow> int \<Rightarrow> int option" where
  "column_at stray column k =
     (if 0 \<le> k \<and> k < int (length column) then Some (column ! nat k) else stray)"

text \<open>
  \<open>while (len-- >= 0)\<close>: the test reads \<open>len\<close>, the decrement happens before the body,
  and the body reads \<open>column[len]\<close> at the decremented index.
\<close>

function minimum_loop :: "int option \<Rightarrow> int list \<Rightarrow> int \<Rightarrow> int \<Rightarrow> int option" where
  "minimum_loop stray column len mn =
     (if len \<ge> 0 then
        (case column_at stray column (len - 1) of
           None \<Rightarrow> None
         | Some v \<Rightarrow> minimum_loop stray column (len - 1) (if v < mn then v else mn))
      else Some mn)"
  by pat_completeness auto
termination
  by (relation "measure (\<lambda>(stray, column, len, mn). nat (len + 1))") auto

declare minimum_loop.simps [simp del]

definition minimum :: "int option \<Rightarrow> int list \<Rightarrow> int \<Rightarrow> int option" where
  "minimum stray column len =
     (case column_at stray column (len - 1) of
        None \<Rightarrow> None
      | Some mn \<Rightarrow> minimum_loop stray column (len - 1) mn)"

text \<open>
  The inner loop of the DP over \<open>j = 1 .. len2\<close> for row \<open>i\<close>; \<open>None\<close> is the early
  return after a failed comparison.
\<close>

function lev_row ::
  "'a comparator \<Rightarrow> 'a list \<Rightarrow> 'a list \<Rightarrow> nat \<Rightarrow> nat \<Rightarrow> int \<Rightarrow> int list \<Rightarrow> int list option" where
  "lev_row cmp seq1 seq2 i j lst column =
     (if j \<le> length seq2 then
        (let old = column ! j;
             c = cmp (seq1 ! (i - 1)) (seq2 ! (j - 1)) in
         if c = -1 then None
         else
           (let cost = (if c = 0 then 1 else 0) in
            lev_row cmp seq1 seq2 i (j + 1) old
              (column[j := MIN3 (column ! j + 1) (column ! (j - 1) + 1) (lst + cost)])))
      else Some column)"
  by pat_completeness auto
termination
  by (relation "measure (\<lambda>(cmp, seq1, seq2, i, j, lst, column). Suc (length seq2) - j)") auto

declare lev_row.simps [simp del]

text \<open>
  The outer loop over \<open>i = 1 .. len1\<close> together with the code after it.  The result is the
  value \<open>levenshtein\<close> returns (\<open>-1\<close> bound exceeded, \<open>-3\<close> comparison failed), or \<open>None\<close>
  when a read outside the row counts as an error.
\<close>

function lev_rows ::
  "int option \<Rightarrow> 'a comparator \<Rightarrow> 'a list \<Rightarrow> 'a list \<Rightarrow> int \<Rightarrow> nat \<Rightarrow> int list \<Rightarrow> int option" where
  "lev_rows stray cmp seq1 seq2 max_dist i column =
     (if i \<le> length seq1 then
        (case lev_row cmp seq1 seq2 i 1 (int i - 1) (column[0 := int i]) of
           None \<Rightarrow> Some (-3)
         | Some column' \<Rightarrow>
             if max_dist \<ge> 0 then
               (case minimum stray column' (int (length seq2) + 1) of
                  None \<Rightarrow> None
                | Some m \<Rightarrow>
                    if m > max_dist then Some (-1)
                    else lev_rows stray cmp seq1 seq2 max_dist (i + 1) column')
             else lev_rows stray cmp seq1 seq2 max_dist (i + 1) column')
      else
        (let d = column ! length seq2 in
         if max_dist \<ge> 0 \<and> d > max_dist then Some (-1) else Some d))"
  by pat_completeness auto
termination
  by (relation "measure (\<lambda>(stray, cmp, seq1, seq2, max_dist, i, column). Suc (length seq1) - i)")
    auto

declare lev_rows.simps [simp del]

text \<open>
  \<open>alloc n\<close> tells whether the \<open>n\<close>-th \<open>malloc\<close> of a call succeeds.  The fresh row holds
  \<open>column[j] = j\<close> for \<open>1 \<le> j \<le> len2\<close>; cell 0 is written before it is read.
\<close>

definition levenshtein ::
  "int option \<Rightarrow> 'a comparator \<Rightarrow> (nat \<Rightarrow> bool) \<Rightarrow> 'a list \<Rightarrow> 'a list \<Rightarrow> int \<Rightarrow> int option" where
  "levenshtein stray cmp alloc s1 s2 max_dist =
     (let (seq1, seq2) = (if length s1 < length s2 then (s2, s1) else (s1, s2));
          len1 = int (length seq1);
          len2 = int (length seq2) in
      if max_dist \<ge> 0 \<and> len1 - len2 > max_dist then Some (-1)
      else if len1 = 0 then Some len2
      else if len2 = 0 then Some len1
      else if \<not> alloc 0 then Some (-2)
      else lev_rows stray cmp seq1 seq2 max_dist 1 (0 # map int [1..<length seq2 + 1]))"

text \<open>
  The normalized distance.  Method 1 divides the raw distance by the longer length; method
  2 runs a second row \<open>length\<close> beside the distance row, holding the length of the
  longest alignment that reaches the minimal cost.  The \<open>double\<close> result is a real number
  here, the quotient being exact; negative results are the error sentinels.  The function
  expects \<open>len1 \<ge> len2\<close> (its \<open>assert\<close>); the wrapper \<open>nlevenshtein_py\<close> swaps the
  operands to make it so.
\<close>

function nlev_row ::
  "'a comparator \<Rightarrow> 'a list \<Rightarrow> 'a list \<Rightarrow> nat \<Rightarrow> nat \<Rightarrow> int \<Rightarrow> int \<Rightarrow> int list \<Rightarrow> int list
     \<Rightarrow> (int list \<times> int list) option" where
  "nlev_row cmp seq1 seq2 i j lst llast column lengths =
     (if j \<le> length seq2 then
        (let old = column ! j;
             ic = column ! (j - 1) + 1;
             dc = column ! j + 1;
             c = cmp (seq1 ! (i - 1)) (seq2 ! (j - 1)) in
         if c = -1 then None
         else
           (let rc = lst + (if c = 0 then 1 else 0);
                column' = column[j := MIN3 ic dc rc];
                lold = lengths ! j;
                lic = (if ic = column' ! j then lengths ! (j - 1) + 1 else 0);
                ldc = (if dc = column' ! j then lengths ! j + 1 else 0);
                lrc = (if rc = column' ! j then llast + 1 else 0);
                lengths' = lengths[j := MAX3 lic ldc lrc]
            in nlev_row cmp seq1 seq2 i (j + 1) old lold column' lengths'))
      else Some (column, lengths))"
  by pat_completeness auto
termination
  by (relation "measure (\<lambda>(cmp, seq1, seq2, i, j, lst, llast, column, lengths). Suc (length seq2) - j)")
    auto

declare nlev_row.simps [simp del]

function nlev_rows ::
  "'a comparator \<Rightarrow> 'a list \<Rightarrow> 'a list \<Rightarrow> nat \<Rightarrow> int list \<Rightarrow> int list \<Rightarrow> (int list \<times> int list) option" where
  "nlev_rows cmp seq1 seq2 i column lengths =
     (if i \<le> length seq1 then
        (case nlev_row cmp seq1 seq2 i 1 (int i - 1) (int i - 1)
                (column[0 := int i]) (lengths[0 := int i]) of
           None \<Rightarrow> None
         | Some (column', lengths') \<Rightarrow> nlev_rows cmp seq1 seq2 (i + 1) column' lengths')
      else Some (column, lengths))"
  by pat_completeness auto
termination
  by (relation "measure (\<lambda>(cmp, seq1, seq2, i, column, lengths). Suc (length seq1) - i)") auto

declare nlev_rows.simps [simp del]

definition nlevenshtein ::
  "int option \<Rightarrow> 'a comparator \<Rightarrow> (nat \<Rightarrow> bool) \<Rightarrow> 'a list \<Rightarrow> 'a list \<Rightarrow> int \<Rightarrow> real option" where
  "nlevenshtein stray cmp alloc seq1 seq2 method =
     (let len1 = length seq1; len2 = length seq2 in
      if len1 = 0 then Some 0
      else if len2 = 0 then Some 1
      else if method = 1 then
        (case levenshtein stray cmp alloc seq1 seq2 (-1) of
           None \<Rightarrow> None
         | Some fdist \<Rightarrow>
             if fdist < 0 then Some (real_of_int fdist)
             else Some (real_of_int fdist / real len1))
      else if \<not> alloc 0 then Some (-1)
      else if \<not> alloc 1 then Some (-1)
      else
        (case nlev_rows cmp seq1 seq2 1 (0 # map int [1..<len2 + 1]) (0 # map int [1..<len2 + 1]) of
           None \<Rightarrow> Some (-2)
         | Some (column, lengths) \<Rightarrow>
             Some (real_of_int (column ! len2) / real_of_int (lengths ! len2))))"

text \<open>
  \<open>nlevenshtein_py\<close> of \<open>distance.c\<close>: a negative result equal to \<open>-1\<close> becomes
  \<open>PyErr_NoMemory()\<close>, any other negative result leaves through the \<open>return NULL\<close> that
  the source marks "comparison failed".
\<close>

definition nlevenshtein_py ::
  "int option \<Rightarrow> 'a comparator \<Rightarrow> (nat \<Rightarrow> bool) \<Rightarrow> 'a list \<Rightarrow> 'a list \<Rightarrow> int
     \<Rightarrow> (error + pyval) option" where
  "nlevenshtein_py stray cmp alloc arg1 arg2 method =
     (if method \<noteq> 1 \<and> method \<noteq> 2 then Some (Inl InvalidArgument)
      else
        (let (seq1, seq2) = (if length arg1 < length arg2 then (arg2, arg1) else (arg1, arg2)) in
         case nlevenshtein stray cmp alloc seq1 seq2 method of
           None \<Rightarrow> None
         | Some d \<Rightarrow>
             if d < 0 then (if d = -1 then Some (Inl OutOfMemory) else Some (Inl ComparisonFailed))
             else Some (Inr (PyFloat d))))"

section \<open>Longest common substrings (lcsubstrings.c, lcsubstrings_py)\<close>

text \<open>
  \<open>lcs_row\<close> is the loop over \<open>j\<close> for one \<open>i\<close>, \<open>lcs_rows\<close> the loop over \<open>i\<close>; the
  state carried along is \<open>last\<close>, \<open>mlen\<close>, the stack of positions \<open>(i, j)\<close> and the row.
  The \<open>UT_array\<close> stack is a list: \<open>utarray_push_back\<close> appends, \<open>utarray_clear\<close> empties.
  \<open>lcsubstrings\<close> yields \<open>None\<close> for the \<open>NULL\<close> of its error exit, and otherwise the stack
  with the value stored through \<open>max_len\<close>.  The fresh row holds \<open>column[j] = j\<close> below
  \<open>len2\<close>; its last cell is never used.  The allocation inside \<open>utarray_new\<close> is taken
  to succeed.  \<open>get_slice\<close> is \<open>PySequence_GetSlice\<close> with Python's reading of the two
  bounds.
\<close>

function lcs_row ::
  "'a comparator \<Rightarrow> 'a list \<Rightarrow> 'a list \<Rightarrow> nat \<Rightarrow> nat \<Rightarrow> int \<Rightarrow> int \<Rightarrow> (nat \<times> nat) list \<Rightarrow> int list
     \<Rightarrow> (int \<times> int \<times> (nat \<times> nat) list \<times> int list) option" where
  "lcs_row cmp seq1 seq2 i j lst mlen stack column =
     (if j < length seq2 then
        (let old = column ! j;
             c = cmp (seq1 ! i) (seq2 ! j) in
         if c = -1 then None
         else if c \<noteq> 0 then
           (let v = (if i = 0 \<or> j = 0 then 1 else lst + 1);
                column' = column[j := v] in
            if v > mlen then lcs_row cmp seq1 seq2 i (j + 1) old v [(i, j)] column'
            else if v = mlen then lcs_row cmp seq1 seq2 i (j + 1) old mlen (stack @ [(i, j)]) column'
            else lcs_row cmp seq1 seq2 i (j + 1) old mlen stack column')
         else lcs_row cmp seq1 seq2 i (j + 1) old mlen stack (column[j := 0]))
      else Some (lst, mlen, stack, column))"
  by pat_completeness auto
termination
  by (relation "measure (\<lambda>(cmp, seq1, seq2, i, j, lst, mlen, stack, column). length seq2 - j)") auto

declare lcs_row.simps [simp del]

function lcs_rows ::
  "'a comparator \<Rightarrow> 'a list \<Rightarrow> 'a list \<Rightarrow> nat \<Rightarrow> int \<Rightarrow> int \<Rightarrow> (nat \<times> nat) list \<Rightarrow> int list
     \<Rightarrow> (int \<times> (nat \<times> nat) list) option" where
  "lcs_rows cmp seq1 seq2 i lst mlen stack column =
     (if i < length seq1 then
        (case lcs_row cmp seq1 seq2 i 0 lst mlen stack column of
           None \<Rightarrow> None
         | Some (lst', mlen', stack', column') \<Rightarrow>
             lcs_rows cmp seq1 seq2 (i + 1) lst' mlen' stack' column')
      else Some (mlen, stack))"
  by pat_completeness auto
termination
  by (relation "measure (\<lambda>(cmp, seq1, seq2, i, lst, mlen, stack, column). length seq1 - i)") auto

declare lcs_rows.simps [simp del]

definition lcsubstrings ::
  "'a comparator \<Rightarrow> (nat \<Rightarrow> bool) \<Rightarrow> 'a list \<Rightarrow> 'a list \<Rightarrow> ((nat \<times> nat) list \<times> int) option" where
  "lcsubstrings cmp alloc seq1 seq2 =
     (if length seq2 = 0 then Some ([], 0)
      else if \<not> alloc 0 then None
      else
        (case lcs_rows cmp seq1 seq2 0 0 (-1) [] (map int [0..<length seq2] @ [0]) of
           None \<Rightarrow> None
         | Some (mlen, stack) \<Rightarrow> Some (stack, mlen)))"

definition get_slice :: "'a list \<Rightarrow> int \<Rightarrow> int \<Rightarrow> 'a list" where
  "get_slice xs i1 i2 =
     (let n = int (length xs);
          a = (if i1 < 0 then max 0 (i1 + n) else min i1 n);
          b = (if i2 < 0 then max 0 (i2 + n) else min i2 n)
      in take (nat (b - a)) (drop (nat a) xs))"

datatype 'a lcs_value = Positions int "(int \<times> int) list" | Substrings "'a list set"

definition lcsubstrings_py_make_set ::
  "'a list \<Rightarrow> 'a list \<Rightarrow> (nat \<times> nat) list \<Rightarrow> int \<Rightarrow> 'a lcs_value" where
  "lcsubstrings_py_make_set arg1 arg2 stack mlen =
     Substrings (set (map (\<lambda>(i, j). get_slice arg2 (int j - mlen + 1) (int j + 1)) stack))"

definition lcsubstrings_py_make_tuple ::
  "'a list \<Rightarrow> 'a list \<Rightarrow> (nat \<times> nat) list \<Rightarrow> int \<Rightarrow> 'a lcs_value" where
  "lcsubstrings_py_make_tuple arg1 arg2 stack mlen =
     Positions mlen (map (\<lambda>(i, j). (int i - mlen + 1, int j - mlen + 1)) stack)"

definition lcsubstrings_py ::
  "'a comparator \<Rightarrow> (nat \<Rightarrow> bool) \<Rightarrow> 'a list \<Rightarrow> 'a list \<Rightarrow> bool \<Rightarrow> error + 'a lcs_value" where
  "lcsubstrings_py cmp alloc a1 a2 positions =
     (let (arg1, arg2) = (if length a1 < length a2 then (a2, a1) else (a1, a2)) in
      case lcsubstrings cmp alloc arg1 arg2 of
        None \<Rightarrow> Inl OutOfMemory
      | Some (stack, mlen) \<Rightarrow>
          if positions then Inr (lcsubstrings_py_make_tuple arg1 arg2 stack mlen)
          else Inr (lcsubstrings_py_make_set arg1 arg2 stack mlen))"

section \<open>Bounded fast comparator (fastcomp.c)\<close>

text \<open>
  A model is the C string of two scripted operations (\<open>d\<close> delete, \<open>i\<close> insert, \<open>r\<close>
  replace) with its terminating NUL, which \<open>models[m][c]\<close> reads when \<open>c = 2\<close>.
  \<open>fc_step\<close> is the scripted move after the \<open>c\<close>-th mismatch, \<open>fc_walk\<close> the
  \<open>while\<close> loop (\<open>None\<close>: a comparison failed), \<open>fc_finish\<close> the code between the loop
  and \<open>if (c < res)\<close> (\<open>None\<close>: \<open>continue\<close>), and \<open>fc_models\<close> the loop over the models
  with the final test of \<open>res\<close>.
\<close>

definition fc_step :: "string \<Rightarrow> int \<Rightarrow> nat \<Rightarrow> nat \<Rightarrow> nat \<times> nat" where
  "fc_step model c i j =
     (if model ! nat (c - 1) = CHR ''d'' then (i + 1, j)
      else if model ! nat (c - 1) = CHR ''i'' then (i, j + 1)
      else (i + 1, j + 1))"

function fc_walk ::
  "'a comparator \<Rightarrow> 'a list \<Rightarrow> 'a list \<Rightarrow> bool \<Rightarrow> int \<Rightarrow> string \<Rightarrow> nat \<Rightarrow> nat \<Rightarrow> int
     \<Rightarrow> (nat \<times> nat \<times> int) option" where
  "fc_walk cmp seq1 seq2 transpositions ldiff model i j c =
     (if i < length seq1 \<and> j < length seq2 then
        (let cm = cmp (seq1 ! i) (seq2 ! j) in
         if cm = -1 then None
         else if cm = 0 then
           (let c' = c + 1 in
            if c' > 2 then Some (i, j, c')
            else if transpositions \<and> ldiff \<noteq> 2 \<and> int i < int (length seq1) - 1
                    \<and> int j < int (length seq2) - 1 then
              (let cm1 = cmp (seq1 ! (i + 1)) (seq2 ! j) in
               if cm1 = -1 then None
               else if cm1 \<noteq> 0 then
                 (let cm2 = cmp (seq1 ! i) (seq2 ! (j + 1)) in
                  if cm2 = -1 then None
                  else if cm2 \<noteq> 0 then
                    fc_walk cmp seq1 seq2 transpositions ldiff model (i + 2) (j + 2) c'
                  else
                    fc_walk cmp seq1 seq2 transpositions ldiff model
                      (fst (fc_step model c' i j)) (snd (fc_step model c' i j)) c')
               else
                 fc_walk cmp seq1 seq2 transpositions ldiff model
                   (fst (fc_step model c' i j)) (snd (fc_step model c' i j)) c')
            else
              fc_walk cmp seq1 seq2 transpositions ldiff model
                (fst (fc_step model c' i j)) (snd (fc_step model c' i j)) c')
         else fc_walk cmp seq1 seq2 transpositions ldiff model (i + 1) (j + 1) c)
      else Some (i, j, c))"
  by pat_completeness auto
termination
  by (relation "measure (\<lambda>(cmp, seq1, seq2, tr, ldiff, model, i, j, c).
        (length seq1 - i) + (length seq2 - j))")
    (auto simp: fc_step_def)

declare fc_walk.simps [simp del]

definition bool_int :: "bool \<Rightarrow> int" where
  "bool_int b = (if b then 1 else 0)"

definition fc_finish :: "string \<Rightarrow> nat \<Rightarrow> nat \<Rightarrow> nat \<Rightarrow> nat \<Rightarrow> int \<Rightarrow> int option" where
  "fc_finish model len1 len2 i j c =
     (if c > 2 then None
      else if i < len1 then
        (let cnt = (if c = 1 then bool_int (model ! 1 = CHR ''d'')
                    else bool_int (model ! 0 = CHR ''d'') + bool_int (model ! 1 = CHR ''d'')) in
         if int len1 - int i \<le> cnt then Some (c + (int len1 - int i)) else None)
      else if j < len2 then
        (if int len2 - int j \<le> bool_int (model ! nat c = CHR ''i'')
         then Some (c + (int len2 - int j)) else None)
      else Some c)"

function fc_models ::
  "'a comparator \<Rightarrow> 'a list \<Rightarrow> 'a list \<Rightarrow> bool \<Rightarrow> int \<Rightarrow> string list \<Rightarrow> int \<Rightarrow> int \<Rightarrow> int" where
  "fc_models cmp seq1 seq2 transpositions ldiff models m res =
     (if m \<ge> 0 then
        (case fc_walk cmp seq1 seq2 transpositions ldiff (models ! nat m) 0 0 0 of
           None \<Rightarrow> -2
         | Some (i, j, c) \<Rightarrow>
             (case fc_finish (models ! nat m) (length seq1) (length seq2) i j c of
                None \<Rightarrow> fc_models cmp seq1 seq2 transpositions ldiff models (m - 1) res
              | Some c' \<Rightarrow>
                  fc_models cmp seq1 seq2 transpositions ldiff models (m - 1)
                    (if c' < res then c' else res)))
      else (if res = 3 then -1 else res))"
  by pat_completeness auto
termination
  by (relation "measure (\<lambda>(cmp, seq1, seq2, tr, ldiff, models, m, res). nat (m + 1))") auto

declare fc_models.simps [simp del]

definition NUL :: char where
  "NUL = CHR 0x00"

definition fastcomp :: "'a comparator \<Rightarrow> 'a list \<Rightarrow> 'a list \<Rightarrow> bool \<Rightarrow> int" where
  "fastcomp cmp s1 s2 transpositions =
     (let (seq1, seq2) = (if length s1 < length s2 then (s2, s1) else (s1, s2));
          ldiff = int (length seq1) - int (length seq2) in
      if ldiff = 0 then
        fc_models cmp seq1 seq2 transpositions ldiff
          [''rr'' @ [NUL], ''di'' @ [NUL], ''id'' @ [NUL]] 2 3
      else if ldiff = 1 then
        fc_models cmp seq1 seq2 transpositions ldiff [''rd'' @ [NUL], ''dr'' @ [NUL]] 1 3
      else if ldiff = 2 then
        fc_models cmp seq1 seq2 transpositions ldiff [''dd'' @ [NUL]] 0 3
      else -1)"

section \<open>Wrappers and iterators (distance.c)\<close>

text \<open>
  The wrappers take the sequences already unpacked; parsing the arguments and telling the
  three kinds of sequence apart is not modelled.  A \<open>return NULL\<close> on the path the source
  marks "comparison failed" is \<open>ComparisonFailed\<close>, \<open>PyErr_NoMemory()\<close> is \<open>OutOfMemory\<close>.
  The iterator state is the struct \<open>ItorState\<close> (its kind tag, cached length and owning
  object belong to the unpacking and are left out); its candidate source is the list of
  the candidates still to come.  \<open>ilevenshtein_pull\<close> and \<open>ifastcomp_pull\<close> are the \<open>while\<close>
  loops of the two \<open>next\<close> functions; the \<open>drain\<close> functions call \<open>next\<close> until it stops
  yielding and collect what was yielded.
\<close>

definition levenshtein_py ::
  "int option \<Rightarrow> 'a comparator \<Rightarrow> (nat \<Rightarrow> bool) \<Rightarrow> 'a list \<Rightarrow> 'a list \<Rightarrow> bool \<Rightarrow> int
     \<Rightarrow> (error + pyval) option" where
  "levenshtein_py stray cmp alloc arg1 arg2 normalized max_dist =
     (if normalized then nlevenshtein_py stray cmp alloc arg1 arg2 1
      else
        (case levenshtein stray cmp alloc arg1 arg2 max_dist of
           None \<Rightarrow> None
         | Some d \<Rightarrow>
             if d < -1 then (if d = -2 then Some (Inl OutOfMemory) else Some (Inl ComparisonFailed))
             else Some (Inr (PyInt d))))"

definition fastcomp_py :: "'a comparator \<Rightarrow> 'a list \<Rightarrow> 'a list \<Rightarrow> bool \<Rightarrow> error + pyval" where
  "fastcomp_py cmp arg1 arg2 transpositions =
     (let (seq1, seq2) = (if length arg1 < length arg2 then (arg2, arg1) else (arg1, arg2));
          d = fastcomp cmp seq1 seq2 transpositions in
      if d = -2 then Inl ComparisonFailed else Inr (PyInt d))"

record 'a ItorState =
  it_itor :: "'a list list"
  it_seq1 :: "'a list"
  it_transpos :: bool
  it_max_dist :: int

datatype 'a step = Yield int "'a list" | StopIteration | Raise error

fun ilevenshtein_pull ::
  "int option \<Rightarrow> 'a comparator \<Rightarrow> (nat \<Rightarrow> bool) \<Rightarrow> 'a list \<Rightarrow> int \<Rightarrow> 'a list list
     \<Rightarrow> 'a step option \<times> 'a list list" where
  "ilevenshtein_pull stray cmp alloc seq1 max_dist [] = (Some StopIteration, [])"
| "ilevenshtein_pull stray cmp alloc seq1 max_dist (arg2 # rest) =
     (case levenshtein stray cmp alloc seq1 arg2 max_dist of
        None \<Rightarrow> (None, rest)
      | Some d \<Rightarrow>
          if d < -1 then
            (if d = -2 then (Some (Raise OutOfMemory), rest)
             else (Some (Raise ComparisonFailed), rest))
          else if d \<noteq> -1 then (Some (Yield d arg2), rest)
          else ilevenshtein_pull stray cmp alloc seq1 max_dist rest)"

definition ilevenshtein_next ::
  "int option \<Rightarrow> 'a comparator \<Rightarrow> (nat \<Rightarrow> bool) \<Rightarrow> 'a ItorState \<Rightarrow> 'a step option \<times> 'a ItorState" where
  "ilevenshtein_next stray cmp alloc state =
     (let (r, rest) = ilevenshtein_pull stray cmp alloc (it_seq1 state) (it_max_dist state)
                        (it_itor state)
      in (r, state\<lparr>it_itor := rest\<rparr>))"

fun ifastcomp_pull ::
  "'a comparator \<Rightarrow> 'a list \<Rightarrow> bool \<Rightarrow> 'a list list \<Rightarrow> 'a step \<times> 'a list list" where
  "ifastcomp_pull cmp seq1 transpos [] = (StopIteration, [])"
| "ifastcomp_pull cmp seq1 transpos (arg2 # rest) =
     (let d = fastcomp cmp seq1 arg2 transpos in
      if d = -2 then (Raise ComparisonFailed, rest)
      else if d \<noteq> -1 then (Yield d arg2, rest)
      else ifastcomp_pull cmp seq1 transpos rest)"

definition ifastcomp_next :: "'a comparator \<Rightarrow> 'a ItorState \<Rightarrow> 'a step \<times> 'a ItorState" where
  "ifastcomp_next cmp state =
     (let (r, rest) = ifastcomp_pull cmp (it_seq1 state) (it_transpos state) (it_itor state)
      in (r, state\<lparr>it_itor := rest\<rparr>))"

lemma ilevenshtein_pull_shorter:
  "ilevenshtein_pull stray cmp alloc seq1 max_dist cands = (Some (Yield d c), rest)
     \<Longrightarrow> length rest < length cands"
  by (induction cands) (auto split: option.splits if_splits)

lemma ifastcomp_pull_shorter:
  "ifastcomp_pull cmp seq1 transpos cands = (Yield d c, rest) \<Longrightarrow> length rest < length cands"
  by (induction cands) (auto simp: Let_def split: if_splits)

function ilevenshtein_drain ::
  "int option \<Rightarrow> 'a comparator \<Rightarrow> (nat \<Rightarrow> bool) \<Rightarrow> 'a ItorState
     \<Rightarrow> (int \<times> 'a list) list \<times> 'a step option" where
  "ilevenshtein_drain stray cmp alloc state =
     (case ilevenshtein_next stray cmp alloc state of
        (Some (Yield d c), state') \<Rightarrow>
          (let (out, fin) = ilevenshtein_drain stray cmp alloc state' in ((d, c) # out, fin))
      | (r, state') \<Rightarrow> ([], r))"
  by pat_completeness auto
termination
proof (relation "measure (\<lambda>(stray, cmp, alloc, state). length (it_itor state))")
  show "wf (measure (\<lambda>(stray, cmp, alloc, state). length (it_itor state)))" by simp
next
  fix stray :: "int option" and cmp :: "'a comparator" and alloc :: "nat \<Rightarrow> bool"
    and state :: "'a ItorState" and x1 state' x2 x3 d c
  assume "(x1, state') = ilevenshtein_next stray cmp alloc state" "x1 = Some x2" "x2 = Yield d c"
  then have "ilevenshtein_pull stray cmp alloc (it_seq1 state) (it_max_dist state) (it_itor state)
      = (Some (Yield d c), it_itor state')"
    by (auto simp: ilevenshtein_next_def split: prod.splits)
  then show "((stray, cmp, alloc, state'), (stray, cmp, alloc, state))
      \<in> measure (\<lambda>(stray, cmp, alloc, state). length (it_itor state))"
    using ilevenshtein_pull_shorter by fastforce
qed

declare ilevenshtein_drain.simps [simp del]

function ifastcomp_drain ::
  "'a comparator \<Rightarrow> 'a ItorState \<Rightarrow> (int \<times> 'a list) list \<times> 'a step" where
  "ifastcomp_drain cmp state =
     (case ifastcomp_next cmp state of
        (Yield d c, state') \<Rightarrow>
          (let (out, fin) = ifastcomp_drain cmp state' in ((d, c) # out, fin))
      | (r, state') \<Rightarrow> ([], r))"
  by pat_completeness auto
termination
proof (relation "measure (\<lambda>(cmp, state). length (it_itor state))")
  show "wf (measure (\<lambda>(cmp, state). length (it_itor state)))" by simp
next
  fix cmp :: "'a comparator" and state :: "'a ItorState" and x1 state' d c
  assume "(x1, state') = ifastcomp_next cmp state" "x1 = Yield d c"
  then have "ifastcomp_pull cmp (it_seq1 state) (it_transpos state) (it_itor state)
      = (Yield d c, it_itor state')"
    by (auto simp: ifastcomp_next_def split: prod.splits)
  then show "((cmp, state'), (cmp, state)) \<in> measure (\<lambda>(cmp, state). length (it_itor state))"
    using ifastcomp_pull_shorter by fastforce
qed

declare ifastcomp_drain.simps [simp del]

section \<open>Reference notions\<close>

text \<open>
  The edit distance the Levenshtein engine is measured against: the usual recursion over
  the two sequences, and the alignments it minimises over (each step keeps an element,
  substitutes one, deletes one from the first sequence or inserts one of the second; the
  cost counts the steps other than keeping).
\<close>

fun edit_distance :: "'a list \<Rightarrow> 'a list \<Rightarrow> nat" where
  "edit_distance [] ys = length ys"
| "edit_distance (x # xs) [] = Suc (length xs)"
| "edit_distance (x # xs) (y # ys) =
     min (min (edit_distance xs (y # ys) + 1) (edit_distance (x # xs) ys + 1))
         (edit_distance xs ys + (if x = y then 0 else 1))"

inductive alignment :: "nat \<Rightarrow> 'a list \<Rightarrow> 'a list \<Rightarrow> bool" where
  Done: "alignment 0 [] []"
| Keep: "alignment n xs ys \<Longrightarrow> alignment n (x # xs) (x # ys)"
| Subst: "alignment n xs ys \<Longrightarrow> alignment (Suc n) (x # xs) (y # ys)"
| Delete: "alignment n xs ys \<Longrightarrow> alignment (Suc n) (x # xs) ys"
| Insert: "alignment n xs ys \<Longrightarrow> alignment (Suc n) xs (y # ys)"

text \<open>
  The same distance in the words of the glossary: \<open>edit1\<close> is one insertion, deletion or
  substitution of a single element anywhere in a sequence, \<open>edits n\<close> a chain of \<open>n\<close> of
  them.  The recursion above yields the least such \<open>n\<close>
  (\<open>edit_distance_minimum_edits\<close> below).
\<close>

inductive edit1 :: "'a list \<Rightarrow> 'a list \<Rightarrow> bool" where
  ins: "edit1 (u @ v) (u @ c # v)"
| del: "edit1 (u @ c # v) (u @ v)"
| sub: "edit1 (u @ c # v) (u @ d # v)"

inductive edits :: "nat \<Rightarrow> 'a list \<Rightarrow> 'a list \<Rightarrow> bool" where
  none: "edits 0 xs xs"
| more: "edits n xs ys \<Longrightarrow> edit1 ys zs \<Longrightarrow> edits (Suc n) xs zs"

text \<open>
  The DP matrix: the cell in row \<open>i\<close> and column \<open>j\<close> is the edit distance between the
  first \<open>i\<close> elements of one sequence and the first \<open>j\<close> of the other.  A comparison
  is faithful when it never fails and answers "not equal" exactly for different elements.
\<close>

definition cell :: "'a list \<Rightarrow> 'a list \<Rightarrow> nat \<Rightarrow> nat \<Rightarrow> int" where
  "cell xs ys i j = int (edit_distance (take i xs) (take j ys))"

definition faithful :: "'a comparator \<Rightarrow> bool" where
  "faithful cmp \<longleftrightarrow> (\<forall>x y. cmp x y \<noteq> -1 \<and> (cmp x y = 0 \<longleftrightarrow> x \<noteq> y))"

text \<open>The number of positions below \<open>n\<close> at which the comparison answers "not equal".\<close>

definition mismatches :: "'a comparator \<Rightarrow> 'a list \<Rightarrow> 'a list \<Rightarrow> nat \<Rightarrow> nat" where
  "mismatches cmp seq1 seq2 n = length (filter (\<lambda>i. cmp (seq1 ! i) (seq2 ! i) = 0) [0..<n])"

text \<open>
  Common runs.  \<open>run xs ys i j\<close> is the length of the longest run of equal elements that
  ends at position \<open>i\<close> of \<open>xs\<close> and position \<open>j\<close> of \<open>ys\<close>: the two prefixes are read
  backwards from there as long as they agree.  \<open>cells\<close> lists all position pairs in the
  order of the scan, \<open>max_run\<close> is the longest run over all of them (0 when there is none).
\<close>

definition run :: "'a list \<Rightarrow> 'a list \<Rightarrow> nat \<Rightarrow> nat \<Rightarrow> nat" where
  "run xs ys i j =
     length (takeWhile (\<lambda>(x, y). x = y) (zip (rev (take (Suc i) xs)) (rev (take (Suc j) ys))))"

definition run_at :: "'a list \<Rightarrow> 'a list \<Rightarrow> nat \<times> nat \<Rightarrow> nat" where
  "run_at xs ys p = run xs ys (fst p) (snd p)"

definition cells :: "'a list \<Rightarrow> 'a list \<Rightarrow> (nat \<times> nat) list" where
  "cells xs ys = List.product [0..<length xs] [0..<length ys]"

definition max_run :: "'a list \<Rightarrow> 'a list \<Rightarrow> nat" where
  "max_run xs ys = Max (set (0 # map (\<lambda>(i, j). run xs ys i j) (cells xs ys)))"

text \<open>
  The bookkeeping of the best run so far, in the words of the tie rule: a cell without a
  match changes nothing, a strictly longer run resets the positions to that single cell, a
  run equal to the best so far is appended.  \<open>scan_good\<close> says that a pair of best length
  and positions is right for the cells \<open>P\<close> scanned so far.
\<close>

definition scan_step :: "'a list \<Rightarrow> 'a list \<Rightarrow> int \<times> (nat \<times> nat) list \<Rightarrow> nat \<times> nat \<Rightarrow> int \<times> (nat \<times> nat) list" where
  "scan_step xs ys s p =
     (let v = int (run xs ys (fst p) (snd p)) in
      if v = 0 then s
      else if v > fst s then (v, [p])
      else if v = fst s then (fst s, snd s @ [p])
      else s)"

definition scan_good :: "'a list \<Rightarrow> 'a list \<Rightarrow> (nat \<times> nat) list \<Rightarrow> int \<times> (nat \<times> nat) list \<Rightarrow> bool" where
  "scan_good xs ys P s =
     (if \<forall>p\<in>set P. run_at xs ys p = 0 then s = (-1, [])
      else fst s = int (Max (run_at xs ys ` set P))
         \<and> snd s = filter (\<lambda>p. run_at xs ys p = Max (run_at xs ys ` set P)) P)"

text \<open>
  For the bounded comparator: what one model reports (its walk followed by the code after
  the walk), the change an operation makes to the difference of the remaining lengths, and
  the models tried for each length difference.
\<close>

definition model_result ::
  "'a comparator \<Rightarrow> 'a list \<Rightarrow> 'a list \<Rightarrow> bool \<Rightarrow> int \<Rightarrow> string \<Rightarrow> int option" where
  "model_result cmp seq1 seq2 tr ldiff model =
     (case fc_walk cmp seq1 seq2 tr ldiff model 0 0 0 of
        None \<Rightarrow> None
      | Some (i, j, c) \<Rightarrow> fc_finish model (length seq1) (length seq2) i j c)"

definition op_net :: "char \<Rightarrow> int" where
  "op_net ch = (if ch = CHR ''d'' then 1 else if ch = CHR ''i'' then -1 else 0)"

definition catalogue :: "int \<Rightarrow> string list" where
  "catalogue ldiff =
     (if ldiff = 0 then [''rr'' @ [NUL], ''di'' @ [NUL], ''id'' @ [NUL]]
      else if ldiff = 1 then [''rd'' @ [NUL], ''dr'' @ [NUL]]
      else [''dd'' @ [NUL]])"

section \<open>Hamming: proofs\<close>

lemma hamming_loop_count:
  assumes "\<forall>k<len. cmp (seq1 ! k) (seq2 ! k) \<noteq> -1"
  shows "hamming_loop cmp seq1 seq2 len i d =
           d + int (length (filter (\<lambda>k. cmp (seq1 ! k) (seq2 ! k) = 0) [i..<len]))"
  using assms
proof (induction cmp seq1 seq2 len i d rule: hamming_loop.induct)
  case (1 cmp seq1 seq2 len i d)
  show ?case
  proof (cases "i < len")
    case True
    then have nf: "cmp (seq1 ! i) (seq2 ! i) \<noteq> -1"
      using "1.prems" by blast
    have up: "[i..<len] = i # [i + 1..<len]"
      using True by (simp add: upt_conv_Cons)
    show ?thesis
      using True nf "1.IH" [OF True refl nf "1.prems"]
      by (subst hamming_loop.simps) (simp add: up Let_def)
  next
    case False
    then show ?thesis
      by (subst hamming_loop.simps) simp
  qed
qed

lemma hamming_count:
  assumes "\<forall>k<len. cmp (seq1 ! k) (seq2 ! k) \<noteq> -1"
  shows "hamming cmp seq1 seq2 len = int (mismatches cmp seq1 seq2 len)"
  using assms hamming_loop_count [of len cmp seq1 seq2 0 0]
  by (simp add: hamming_def mismatches_def)

lemma mismatches_native:
  "mismatches native_comp seq1 seq2 n = length (filter (\<lambda>i. seq1 ! i \<noteq> seq2 ! i) [0..<n])"
  by (simp add: mismatches_def native_comp_def)

text \<open>
  Claim C8.  \<open>hamming_py\<close> raises the length-mismatch error exactly when the two lengths
  differ, whatever the comparison does.  For equal lengths and a comparison that does not fail
  on the aligned pairs it returns the number of positions where the comparison says "not
  equal" (for the native comparison: the positions where the elements differ); two empty
  sequences give 0; the normalized variant gives 0.0 for length 0, without dividing, and
  the count divided by the length otherwise.
\<close>

theorem hamming_contract:
  fixes cmp :: "'a comparator" and seqA seqB :: "'a list"
  shows "(hamming_py cmp seqA seqB nrm = Inl LengthMismatch \<longleftrightarrow> length seqA \<noteq> length seqB)
    \<and> (length seqA = length seqB \<and> (\<forall>k<length seqA. cmp (seqA ! k) (seqB ! k) \<noteq> -1) \<longrightarrow>
         hamming_py cmp seqA seqB False = Inr (PyInt (int (mismatches cmp seqA seqB (length seqA))))
       \<and> hamming_py cmp seqA seqB True =
           Inr (PyFloat (if length seqA = 0 then 0
                         else real (mismatches cmp seqA seqB (length seqA)) / real (length seqA))))
    \<and> (length seqA = length seqB \<longrightarrow>
         hamming_py native_comp seqA seqB False =
           Inr (PyInt (int (length (filter (\<lambda>i. seqA ! i \<noteq> seqB ! i) [0..<length seqA])))))
    \<and> hamming_py cmp [] [] False = Inr (PyInt 0)
    \<and> hamming_py cmp [] [] True = Inr (PyFloat 0)"
proof (intro conjI impI)
  show "hamming_py cmp seqA seqB nrm = Inl LengthMismatch \<longleftrightarrow> length seqA \<noteq> length seqB"
    by (simp add: hamming_py_def Let_def)
next
  assume a: "length seqA = length seqB \<and> (\<forall>k<length seqA. cmp (seqA ! k) (seqB ! k) \<noteq> -1)"
  then have h: "hamming cmp seqA seqB (length seqA) = int (mismatches cmp seqA seqB (length seqA))"
    using hamming_count by blast
  show "hamming_py cmp seqA seqB False = Inr (PyInt (int (mismatches cmp seqA seqB (length seqA))))"
    using a h by (simp add: hamming_py_def Let_def)
  show "hamming_py cmp seqA seqB True =
           Inr (PyFloat (if length seqA = 0 then 0
                         else real (mismatches cmp seqA seqB (length seqA)) / real (length seqA)))"
    using a h by (simp add: hamming_py_def Let_def)
next
  assume a: "length seqA = length seqB"
  have "\<forall>k<length seqA. native_comp (seqA ! k) (seqB ! k) \<noteq> -1"
    by (simp add: native_comp_def)
  then have "hamming native_comp seqA seqB (length seqA) =
      int (mismatches native_comp seqA seqB (length seqA))"
    using hamming_count by blast
  then show "hamming_py native_comp seqA seqB False =
           Inr (PyInt (int (length (filter (\<lambda>i. seqA ! i \<noteq> seqB ! i) [0..<length seqA]))))"
    using a by (simp add: hamming_py_def Let_def mismatches_native)
next
  show "hamming_py cmp [] [] False = Inr (PyInt 0)"
    by (simp add: hamming_py_def hamming_def Let_def hamming_loop.simps)
  show "hamming_py cmp [] [] True = Inr (PyFloat 0)"
    by (simp add: hamming_py_def hamming_def Let_def hamming_loop.simps)
qed

theorem hamming_contract_witness:
  "length ''toned'' = length ''roses''
   \<and> list_all (\<lambda>k. native_comp (''toned'' ! k) (''roses'' ! k) \<noteq> -1) [0..<length ''toned'']
   \<and> hamming_py native_comp ''toned'' ''roses'' False = Inr (PyInt 3)
   \<and> hamming_py native_comp ''toned'' ''roses'' True = Inr (PyFloat (3 / 5))
   \<and> hamming_py native_comp ''abc'' ''ab'' False = Inl LengthMismatch"
proof -
  have nf: "\<forall>k<length ''toned''. native_comp (''toned'' ! k) (''roses'' ! k) \<noteq> -1"
    by (simp add: native_comp_def)
  show ?thesis
    using hamming_contract [of native_comp "''toned''" "''roses''" False]
      hamming_contract [of native_comp "''abc''" "''ab''" False] nf
    by (simp add: mismatches_def native_comp_def upt_rec)
qed

section \<open>Edit distance: the recursion and the alignments\<close>

lemma edit_distance_Nil2 [simp]: "edit_distance xs [] = length xs"
  by (cases xs) simp_all

lemma alignment_deletes: "alignment (length xs) xs []"
  by (induction xs) (auto intro: alignment.intros)

lemma alignment_inserts: "alignment (length ys) [] ys"
  by (induction ys) (auto intro: alignment.intros)

lemma alignment_edit_distance: "alignment (edit_distance xs ys) xs ys"
proof (induction xs ys rule: edit_distance.induct)
  case (1 ys)
  show ?case by (simp add: alignment_inserts)
next
  case (2 x xs)
  show ?case using alignment_deletes [of "x # xs"] by simp
next
  case (3 x xs y ys)
  let ?a = "edit_distance xs (y # ys) + 1"
  let ?b = "edit_distance (x # xs) ys + 1"
  let ?c = "edit_distance xs ys + (if x = y then 0 else 1)"
  have a: "alignment ?a (x # xs) (y # ys)"
    using "3.IH"(1) alignment.Delete by fastforce
  have b: "alignment ?b (x # xs) (y # ys)"
    using "3.IH"(2) alignment.Insert by fastforce
  have c: "alignment ?c (x # xs) (y # ys)"
    using "3.IH"(3) alignment.Keep alignment.Subst by fastforce
  have "edit_distance (x # xs) (y # ys) = ?a \<or> edit_distance (x # xs) (y # ys) = ?b
      \<or> edit_distance (x # xs) (y # ys) = ?c"
    by (simp add: min_def)
  then show ?case using a b c by metis
qed

lemma edit_distance_Cons1: "edit_distance (x # xs) ys \<le> Suc (edit_distance xs ys)"
  by (cases ys) simp_all

lemma edit_distance_Cons2: "edit_distance xs (y # ys) \<le> Suc (edit_distance xs ys)"
  by (cases xs) simp_all

lemma edit_distance_Cons_Cons: "edit_distance (x # xs) (y # ys) \<le> Suc (edit_distance xs ys)"
  by (simp add: min_def)

lemma edit_distance_Cons_same: "edit_distance (x # xs) (x # ys) \<le> edit_distance xs ys"
  by (simp add: min_def)

lemma alignment_lower: "alignment n xs ys \<Longrightarrow> edit_distance xs ys \<le> n"
proof (induction rule: alignment.induct)
  case Done
  show ?case by simp
next
  case (Keep n xs ys x)
  then show ?case using edit_distance_Cons_same [of x xs ys] by linarith
next
  case (Subst n xs ys x y)
  then show ?case using edit_distance_Cons_Cons [of x xs y ys] by linarith
next
  case (Delete n xs ys x)
  then show ?case using edit_distance_Cons1 [of x xs ys] by linarith
next
  case (Insert n xs ys y)
  then show ?case using edit_distance_Cons2 [of xs y ys] by linarith
qed

lemma alignment_snoc_keep: "alignment n xs ys \<Longrightarrow> alignment n (xs @ [x]) (ys @ [x])"
  by (induction rule: alignment.induct) (auto intro: alignment.intros)

lemma alignment_snoc_subst: "alignment n xs ys \<Longrightarrow> alignment (Suc n) (xs @ [x]) (ys @ [y])"
  by (induction rule: alignment.induct) (auto intro: alignment.intros)

lemma alignment_snoc_delete: "alignment n xs ys \<Longrightarrow> alignment (Suc n) (xs @ [x]) ys"
  by (induction rule: alignment.induct) (auto intro: alignment.intros)

lemma alignment_snoc_insert: "alignment n xs ys \<Longrightarrow> alignment (Suc n) xs (ys @ [y])"
  by (induction rule: alignment.induct) (auto intro: alignment.intros)

lemma alignment_rev: "alignment n xs ys \<Longrightarrow> alignment n (rev xs) (rev ys)"
  by (induction rule: alignment.induct)
    (auto intro: alignment.Done alignment_snoc_keep alignment_snoc_subst
       alignment_snoc_delete alignment_snoc_insert)

lemma alignment_sym: "alignment n xs ys \<Longrightarrow> alignment n ys xs"
  by (induction rule: alignment.induct) (auto intro: alignment.intros)

lemma edit_distance_rev: "edit_distance (rev xs) (rev ys) = edit_distance xs ys"
proof (rule antisym)
  show "edit_distance (rev xs) (rev ys) \<le> edit_distance xs ys"
    using alignment_lower [OF alignment_rev [OF alignment_edit_distance [of xs ys]]] .
  show "edit_distance xs ys \<le> edit_distance (rev xs) (rev ys)"
    using alignment_lower [OF alignment_rev [OF alignment_edit_distance [of "rev xs" "rev ys"]]]
    by simp
qed

lemma edit_distance_sym: "edit_distance xs ys = edit_distance ys xs"
proof (rule antisym)
  show "edit_distance xs ys \<le> edit_distance ys xs"
    using alignment_lower [OF alignment_sym [OF alignment_edit_distance [of ys xs]]] .
  show "edit_distance ys xs \<le> edit_distance xs ys"
    using alignment_lower [OF alignment_sym [OF alignment_edit_distance [of xs ys]]] .
qed

lemma edit_distance_least: "edit_distance xs ys = (LEAST n. alignment n xs ys)"
  by (rule sym, rule Least_equality) (auto intro: alignment_edit_distance alignment_lower)

lemma edit_distance_snoc:
  "edit_distance (xs @ [x]) (ys @ [y]) =
     min (min (edit_distance xs (ys @ [y]) + 1) (edit_distance (xs @ [x]) ys + 1))
         (edit_distance xs ys + (if x = y then 0 else 1))"
proof -
  have "edit_distance (xs @ [x]) (ys @ [y]) = edit_distance (x # rev xs) (y # rev ys)"
    using edit_distance_rev [of "xs @ [x]" "ys @ [y]"] by simp
  also have "\<dots> = min (min (edit_distance (rev xs) (y # rev ys) + 1)
                         (edit_distance (x # rev xs) (rev ys) + 1))
                    (edit_distance (rev xs) (rev ys) + (if x = y then 0 else 1))"
    by simp
  also have "edit_distance (rev xs) (y # rev ys) = edit_distance xs (ys @ [y])"
    using edit_distance_rev [of xs "ys @ [y]"] by simp
  also have "edit_distance (x # rev xs) (rev ys) = edit_distance (xs @ [x]) ys"
    using edit_distance_rev [of "xs @ [x]" ys] by simp
  also have "edit_distance (rev xs) (rev ys) = edit_distance xs ys"
    by (rule edit_distance_rev)
  finally show ?thesis .
qed

lemma edit_distance_refl [simp]: "edit_distance xs xs = 0"
  by (induction xs) simp_all

lemma edit_distance_eq_0: "edit_distance xs ys = 0 \<Longrightarrow> xs = ys"
  by (induction xs ys rule: edit_distance.induct) (auto split: if_splits)

lemma edit_distance_le_max: "edit_distance xs ys \<le> max (length xs) (length ys)"
  by (induction xs ys rule: edit_distance.induct) auto

lemma edit_distance_ge_diff1: "length xs - length ys \<le> edit_distance xs ys"
  by (induction xs ys rule: edit_distance.induct) auto

lemma alignment_uncons2:
  "alignment n xs zs \<Longrightarrow> zs = y # ys \<Longrightarrow> \<exists>m\<le>Suc n. alignment m xs ys"
proof (induction arbitrary: y ys rule: alignment.induct)
  case Done
  then show ?case by simp
next
  case (Keep n xs ys' x)
  then have "alignment (Suc n) (x # xs) ys" using alignment.Delete by auto
  then show ?case by blast
next
  case (Subst n xs ys' x y')
  then have "alignment (Suc n) (x # xs) ys" using alignment.Delete by auto
  then show ?case by (meson le_SucI order_refl)
next
  case (Delete n xs ys' x)
  then obtain m where "m \<le> Suc n" "alignment m xs ys" by blast
  then have "Suc m \<le> Suc (Suc n)" "alignment (Suc m) (x # xs) ys"
    using alignment.Delete by auto
  then show ?case by blast
next
  case (Insert n xs ys' y')
  then have "alignment n xs ys" by simp
  then show ?case by (meson le_SucI le_Suc_eq order_refl)
qed

lemma edit_distance_drop2: "edit_distance xs ys \<le> Suc (edit_distance xs (y # ys))"
proof -
  obtain m where "m \<le> Suc (edit_distance xs (y # ys))" "alignment m xs ys"
    using alignment_uncons2 [OF alignment_edit_distance [of xs "y # ys"] refl] by blast
  then show ?thesis using alignment_lower [of m xs ys] by linarith
qed

lemma edit_distance_drop1: "edit_distance xs ys \<le> Suc (edit_distance (x # xs) ys)"
  using edit_distance_drop2 [of ys xs x] by (simp add: edit_distance_sym [of ys])

lemma edit_distance_Cons_same_eq: "edit_distance (x # xs) (x # ys) = edit_distance xs ys"
  using edit_distance_drop2 [of xs ys x] edit_distance_drop1 [of xs ys x]
  by (simp add: min_def)

lemma edit_distance_ge_diff2: "length ys - length xs \<le> edit_distance xs ys"
  using edit_distance_ge_diff1 [of ys xs] by (simp add: edit_distance_sym [of ys])

lemma edit_distance_eq_0_iff: "edit_distance xs ys = 0 \<longleftrightarrow> xs = ys"
  using edit_distance_eq_0 [of xs ys] by auto

lemma edit_distance_mismatch:
  "x \<noteq> y \<Longrightarrow> edit_distance (x # xs) (y # ys) =
     Suc (min (min (edit_distance xs (y # ys)) (edit_distance (x # xs) ys)) (edit_distance xs ys))"
  by (simp add: min_def)

text \<open>The recursion counts the fewest single edits that turn one sequence into the other.\<close>

lemma edit1_Cons: "edit1 xs ys \<Longrightarrow> edit1 (x # xs) (x # ys)"
proof (induction rule: edit1.induct)
  case (ins u v c)
  show ?case using edit1.ins [of "x # u" v c] by simp
next
  case (del u c v)
  show ?case using edit1.del [of "x # u" c v] by simp
next
  case (sub u c v d)
  show ?case using edit1.sub [of "x # u" c v d] by simp
qed

lemma edits_Cons: "edits n xs ys \<Longrightarrow> edits n (x # xs) (x # ys)"
  by (induction rule: edits.induct) (auto intro: edits.intros edit1_Cons)

lemma edits_first: "edits n ys zs \<Longrightarrow> edit1 xs ys \<Longrightarrow> edits (Suc n) xs zs"
proof (induction rule: edits.induct)
  case (none ys)
  then show ?case using edits.more [OF edits.none] by blast
next
  case (more n ys zs ws)
  then show ?case using edits.more by blast
qed

lemma alignment_edits: "alignment n xs ys \<Longrightarrow> edits n xs ys"
proof (induction rule: alignment.induct)
  case Done
  show ?case by (rule edits.none)
next
  case (Keep n xs ys x)
  then show ?case by (simp add: edits_Cons)
next
  case (Subst n xs ys x y)
  have "edit1 (x # ys) (y # ys)" using edit1.sub [of "[]" x ys y] by simp
  then show ?case using edits.more [OF edits_Cons [OF Subst.IH, of x]] by blast
next
  case (Delete n xs ys x)
  have "edit1 (x # xs) xs" using edit1.del [of "[]" x xs] by simp
  then show ?case using edits_first [OF Delete.IH] by blast
next
  case (Insert n xs ys y)
  have "edit1 ys (y # ys)" using edit1.ins [of "[]" ys y] by simp
  then show ?case using edits.more [OF Insert.IH] by blast
qed

lemma edit_distance_subst_head:
  "edit_distance xs (d # t) \<le> Suc (edit_distance xs (c # t))"
proof (induction xs)
  case Nil
  show ?case by simp
next
  case (Cons x xs)
  have a: "edit_distance (x # xs) (d # t) \<le> Suc (edit_distance xs (d # t))"
    by (rule edit_distance_Cons1)
  have b: "edit_distance (x # xs) (d # t) \<le> Suc (edit_distance (x # xs) t)"
    by (rule edit_distance_Cons2)
  have c: "edit_distance (x # xs) (d # t) \<le> Suc (edit_distance xs t)"
    by (rule edit_distance_Cons_Cons)
  show ?case using a b c Cons.IH by (simp add: min_def)
qed

lemma edit_distance_append_step:
  assumes "\<And>xs. edit_distance xs r' \<le> Suc (edit_distance xs r)"
  shows "edit_distance xs (u @ r') \<le> Suc (edit_distance xs (u @ r))"
proof (induction u arbitrary: xs)
  case Nil
  show ?case using assms by simp
next
  case (Cons a u)
  show ?case
  proof (induction xs)
    case Nil
    have "length r' \<le> Suc (length r)" using assms [of "[]"] by simp
    then show ?case by simp
  next
    case (Cons x xs)
    have 1: "edit_distance xs (a # u @ r') \<le> Suc (edit_distance xs (a # u @ r))"
      using Cons.IH by simp
    have 2: "edit_distance (x # xs) (u @ r') \<le> Suc (edit_distance (x # xs) (u @ r))"
      using \<open>\<And>xs. edit_distance xs (u @ r') \<le> Suc (edit_distance xs (u @ r))\<close> .
    have 3: "edit_distance xs (u @ r') \<le> Suc (edit_distance xs (u @ r))"
      using \<open>\<And>xs. edit_distance xs (u @ r') \<le> Suc (edit_distance xs (u @ r))\<close> .
    show ?case using 1 2 3 by (simp add: min_def)
  qed
qed

lemma edit1_distance:
  assumes "edit1 ys zs"
  shows "edit_distance xs zs \<le> Suc (edit_distance xs ys)"
  using assms
proof (cases rule: edit1.cases)
  case (ins u v c)
  show ?thesis unfolding ins
    by (rule edit_distance_append_step) (rule edit_distance_Cons2)
next
  case (del u c v)
  show ?thesis unfolding del
    by (rule edit_distance_append_step) (rule edit_distance_drop2)
next
  case (sub u c v d)
  show ?thesis unfolding sub
    by (rule edit_distance_append_step) (rule edit_distance_subst_head)
qed

lemma edits_lower: "edits n xs ys \<Longrightarrow> edit_distance xs ys \<le> n"
proof (induction rule: edits.induct)
  case (none xs)
  show ?case by simp
next
  case (more n xs ys zs)
  then show ?case using edit1_distance [of ys zs xs] by linarith
qed

lemma edits_edit_distance: "edits (edit_distance xs ys) xs ys"
  by (rule alignment_edits) (rule alignment_edit_distance)

lemma edit_distance_minimum_edits: "edit_distance xs ys = (LEAST n. edits n xs ys)"
  by (rule sym, rule Least_equality) (auto intro: edits_edit_distance edits_lower)

section \<open>Levenshtein: the compacted row computes the matrix\<close>

lemma faithful_native: "faithful native_comp"
  by (simp add: faithful_def native_comp_def)

lemma MIN3_min: "MIN3 a b c = min (min a b) c"
  by (simp add: MIN3_def min_def)

lemma cell_0_left: "j \<le> length ys \<Longrightarrow> cell xs ys 0 j = int j"
  by (simp add: cell_def)

lemma cell_0_right: "i \<le> length xs \<Longrightarrow> cell xs ys i 0 = int i"
  by (simp add: cell_def)

lemma cell_Suc_Suc:
  assumes "i < length xs" "j < length ys"
  shows "cell xs ys (Suc i) (Suc j) =
           MIN3 (cell xs ys i (Suc j) + 1) (cell xs ys (Suc i) j + 1)
                (cell xs ys i j + (if xs ! i = ys ! j then 0 else 1))"
proof -
  have tx: "take (Suc i) xs = take i xs @ [xs ! i]"
    using assms(1) by (simp add: take_Suc_conv_app_nth)
  have ty: "take (Suc j) ys = take j ys @ [ys ! j]"
    using assms(2) by (simp add: take_Suc_conv_app_nth)
  show ?thesis
    unfolding cell_def MIN3_min
    by (simp only: tx ty edit_distance_snoc [of "take i xs" "xs ! i" "take j ys" "ys ! j"])
       (simp add: min_def)
qed

lemma cell_full: "cell xs ys (length xs) (length ys) = int (edit_distance xs ys)"
  by (simp add: cell_def)

lemma lev_row_correct:
  assumes "faithful cmp" "1 \<le> i" "i \<le> length seq1"
  shows "1 \<le> j \<Longrightarrow> j \<le> length seq2 + 1 \<Longrightarrow> length column = length seq2 + 1
    \<Longrightarrow> (\<forall>k<j. column ! k = cell seq1 seq2 i k)
    \<Longrightarrow> (\<forall>k. j \<le> k \<and> k \<le> length seq2 \<longrightarrow> column ! k = cell seq1 seq2 (i - 1) k)
    \<Longrightarrow> lst = cell seq1 seq2 (i - 1) (j - 1)
    \<Longrightarrow> lev_row cmp seq1 seq2 i j lst column = Some (map (cell seq1 seq2 i) [0..<length seq2 + 1])"
  using assms
proof (induction cmp seq1 seq2 i j lst column rule: lev_row.induct)
  case (1 cmp seq1 seq2 i j lst column)
  show ?case
  proof (cases "j \<le> length seq2")
    case False
    then have j: "j = length seq2 + 1" using "1.prems" by linarith
    have "column = map (cell seq1 seq2 i) [0..<length seq2 + 1]"
    proof (rule nth_equalityI)
      show "length column = length (map (cell seq1 seq2 i) [0..<length seq2 + 1])"
        using "1.prems" by simp
    next
      fix k assume "k < length column"
      then have k: "k < length seq2 + 1" using "1.prems" by simp
      then have "column ! k = cell seq1 seq2 i k" using "1.prems"(4) j by simp
      then show "column ! k = map (cell seq1 seq2 i) [0..<length seq2 + 1] ! k"
        using k by (simp del: upt_Suc)
    qed
    then show ?thesis using False by (subst lev_row.simps) simp
  next
    case True
    define c where "c = cmp (seq1 ! (i - 1)) (seq2 ! (j - 1))"
    define cost :: int where "cost = (if c = 0 then 1 else 0)"
    define column' where
      "column' = column[j := MIN3 (column ! j + 1) (column ! (j - 1) + 1) (lst + cost)]"
    have f: "faithful cmp" using "1.prems" by simp
    have cn: "c \<noteq> -1" using f by (simp add: faithful_def c_def)
    have cost: "cost = (if seq1 ! (i - 1) = seq2 ! (j - 1) then 0 else 1)"
      using f by (auto simp: faithful_def c_def cost_def)
    obtain i' where i': "i = Suc i'" using "1.prems" by (cases i) auto
    obtain j' where j': "j = Suc j'" using "1.prems" by (cases j) auto
    have i'l: "i' < length seq1" using "1.prems" i' by simp
    have j'l: "j' < length seq2" using True j' by simp
    have up: "column ! j = cell seq1 seq2 i' j" using "1.prems"(5) True i' by simp
    have left: "column ! (j - 1) = cell seq1 seq2 i j'" using "1.prems"(4) j' by simp
    have diag: "lst = cell seq1 seq2 i' j'" using "1.prems"(6) i' j' by simp
    have new: "MIN3 (column ! j + 1) (column ! (j - 1) + 1) (lst + cost) = cell seq1 seq2 i j"
      using cell_Suc_Suc [OF i'l j'l] up left diag cost i' j' by simp
    have jl: "j < length column" using True "1.prems" by simp
    have len': "length column' = length seq2 + 1" using "1.prems" by (simp add: column'_def)
    have below: "\<forall>k<j + 1. column' ! k = cell seq1 seq2 i k"
    proof (intro allI impI)
      fix k assume "k < j + 1"
      then consider "k < j" | "k = j" by linarith
      then show "column' ! k = cell seq1 seq2 i k"
      proof cases
        case 1
        then show ?thesis using "1.prems"(4) by (simp add: column'_def)
      next
        case 2
        then show ?thesis using new jl by (simp add: column'_def)
      qed
    qed
    have above: "\<forall>k. j + 1 \<le> k \<and> k \<le> length seq2 \<longrightarrow> column' ! k = cell seq1 seq2 (i - 1) k"
      using "1.prems"(5) by (simp add: column'_def)
    have old: "column ! j = cell seq1 seq2 (i - 1) (j + 1 - 1)"
      using up i' by simp
    have step: "lev_row cmp seq1 seq2 i j lst column =
        lev_row cmp seq1 seq2 i (j + 1) (column ! j) column'"
      by (subst lev_row.simps)
        (simp only: True if_True Let_def c_def [symmetric] cn if_False cost_def [symmetric]
           column'_def [symmetric])
    have "lev_row cmp seq1 seq2 i (j + 1) (column ! j) column' =
        Some (map (cell seq1 seq2 i) [0..<length seq2 + 1])"
      using "1.IH" [OF True refl c_def cn cost_def]
        True len' below above old "1.prems"
      unfolding column'_def [symmetric]
      by simp
    then show ?thesis
      using step by simp
  qed
qed

lemma minimum_loop_lower:
  "len \<le> int (length column) \<Longrightarrow>
   \<exists>m. minimum_loop (Some w) column len mn = Some m \<and> m \<le> mn \<and> (\<forall>k<nat len. m \<le> column ! k)"
proof (induction "Some w" column len mn rule: minimum_loop.induct)
  case (1 column len mn)
  show ?case
  proof (cases "len \<ge> 0")
    case False
    then show ?thesis by (subst minimum_loop.simps) simp
  next
    case True
    have "column_at (Some w) column (len - 1) \<noteq> None"
      by (simp add: column_at_def)
    then obtain v where v: "column_at (Some w) column (len - 1) = Some v"
      by blast
    define mn' where "mn' = (if v < mn then v else mn)"
    have "\<exists>m. minimum_loop (Some w) column (len - 1) mn' = Some m \<and> m \<le> mn'
        \<and> (\<forall>k<nat (len - 1). m \<le> column ! k)"
      using "1.hyps" [OF True v] "1.prems" unfolding mn'_def by simp
    then obtain m where m: "minimum_loop (Some w) column (len - 1) mn' = Some m" "m \<le> mn'"
      "\<forall>k<nat (len - 1). m \<le> column ! k" by blast
    have step: "minimum_loop (Some w) column len mn = Some m"
      using True v m(1) by (subst minimum_loop.simps) (simp add: mn'_def)
    have "m \<le> mn" using m(2) by (simp add: mn'_def split: if_splits)
    moreover have "\<forall>k<nat len. m \<le> column ! k"
    proof (intro allI impI)
      fix k assume k: "k < nat len"
      show "m \<le> column ! k"
      proof (cases "k < nat (len - 1)")
        case True
        then show ?thesis using m(3) by simp
      next
        case False
        then have kk: "int k = len - 1" using k by linarith
        then have "nat (len - 1) = k" by linarith
        then have "v = column ! k"
          using v "1.prems" kk by (auto simp: column_at_def split: if_splits)
        moreover have "m \<le> v" using m(2) by (simp add: mn'_def split: if_splits)
        ultimately show ?thesis by simp
      qed
    qed
    ultimately show ?thesis using step by simp
  qed
qed

lemma minimum_lower:
  assumes "column \<noteq> []"
  shows "\<exists>m. minimum (Some w) column (int (length column)) = Some m \<and> (\<forall>k<length column. m \<le> column ! k)"
proof -
  define n where "n = length column"
  have n: "0 < n" using assms by (simp add: n_def)
  have at: "column_at (Some w) column (int n - 1) = Some (column ! (n - 1))"
    using n by (simp add: column_at_def n_def nat_diff_distrib')
  obtain m where m: "minimum_loop (Some w) column (int n - 1) (column ! (n - 1)) = Some m"
    "m \<le> column ! (n - 1)" "\<forall>k<nat (int n - 1). m \<le> column ! k"
    using minimum_loop_lower [of "int n - 1" column w "column ! (n - 1)"] n_def by auto
  have "\<forall>k<n. m \<le> column ! k"
  proof (intro allI impI)
    fix k assume "k < n"
    then consider "k < nat (int n - 1)" | "k = n - 1" by linarith
    then show "m \<le> column ! k" using m by cases auto
  qed
  moreover have "minimum (Some w) column (int n) = Some m"
    using at m(1) by (simp add: minimum_def)
  ultimately show ?thesis unfolding n_def by blast
qed

lemma cell_row_lower:
  assumes "i < length xs" "\<forall>k\<le>length ys. m \<le> cell xs ys i k"
  shows "j \<le> length ys \<Longrightarrow> m \<le> cell xs ys (Suc i) j"
proof (induction j)
  case 0
  have "m \<le> cell xs ys i 0" using assms(2) by blast
  then show ?case using assms(1) by (simp add: cell_0_right)
next
  case (Suc j)
  have a: "m \<le> cell xs ys i (Suc j)" using assms(2) Suc.prems by blast
  have b: "m \<le> cell xs ys (Suc i) j" using Suc by simp
  have c: "m \<le> cell xs ys i j" using assms(2) Suc.prems by simp
  show ?case
    using a b c cell_Suc_Suc [OF assms(1), of j ys] Suc.prems
    by (simp add: MIN3_min min_def)
qed

lemma cell_rows_lower:
  assumes "\<forall>k\<le>length ys. m \<le> cell xs ys i k" "i \<le> i'" "i' \<le> length xs"
  shows "\<forall>k\<le>length ys. m \<le> cell xs ys i' k"
  using assms(2,3)
proof (induction i' rule: dec_induct)
  case base
  show ?case using assms(1) .
next
  case (step n)
  then have "\<forall>k\<le>length ys. m \<le> cell xs ys n k" by simp
  moreover have "n < length xs" using step.prems by simp
  ultimately show ?case using cell_row_lower [of n xs ys m] by blast
qed

lemma lev_rows_correct:
  assumes "faithful cmp" "1 \<le> length seq2" "K \<ge> 0 \<longrightarrow> stray \<noteq> None"
  shows "1 \<le> i \<Longrightarrow> i \<le> length seq1 + 1 \<Longrightarrow> length column = length seq2 + 1
    \<Longrightarrow> (\<forall>k. 1 \<le> k \<and> k \<le> length seq2 \<longrightarrow> column ! k = cell seq1 seq2 (i - 1) k)
    \<Longrightarrow> lev_rows stray cmp seq1 seq2 K i column =
          Some (if K \<ge> 0 \<and> cell seq1 seq2 (length seq1) (length seq2) > K then -1
                else cell seq1 seq2 (length seq1) (length seq2))"
  using assms
proof (induction stray cmp seq1 seq2 K i column rule: lev_rows.induct)
  case (1 stray cmp seq1 seq2 K i column)
  let ?D = "cell seq1 seq2 (length seq1) (length seq2)"
  show ?case
  proof (cases "i \<le> length seq1")
    case False
    then have i: "i = length seq1 + 1" using "1.prems" by linarith
    have "column ! length seq2 = ?D" using "1.prems"(4,6) i by simp
    then show ?thesis using False by (subst lev_rows.simps) (simp add: Let_def)
  next
    case True
    define row where "row = map (cell seq1 seq2 i) [0..<length seq2 + 1]"
    have c0: "\<forall>k<1. (column[0 := int i]) ! k = cell seq1 seq2 i k"
      using True "1.prems"(3) by (simp add: cell_0_right)
    have cr: "\<forall>k. 1 \<le> k \<and> k \<le> length seq2 \<longrightarrow> (column[0 := int i]) ! k = cell seq1 seq2 (i - 1) k"
      using "1.prems"(4) by simp
    have l0: "int i - 1 = cell seq1 seq2 (i - 1) (1 - 1)"
      using "1.prems"(1) True by (simp add: cell_0_right)
    have rw: "lev_row cmp seq1 seq2 i 1 (int i - 1) (column[0 := int i]) = Some row"
      unfolding row_def
      using lev_row_correct [OF "1.prems"(5) "1.prems"(1) True, of 1 seq2 "column[0 := int i]" "int i - 1"]
        c0 cr l0 "1.prems"(3) by simp
    have rowlen: "length row = length seq2 + 1" by (simp add: row_def)
    have rownth: "\<forall>k\<le>length seq2. row ! k = cell seq1 seq2 i k"
      by (auto simp: row_def nth_append simp del: upt_Suc)
    have inv: "\<forall>k. 1 \<le> k \<and> k \<le> length seq2 \<longrightarrow> row ! k = cell seq1 seq2 (i + 1 - 1) k"
      using rownth by simp
    show ?thesis
    proof (cases "K \<ge> 0")
      case False
      have "lev_rows stray cmp seq1 seq2 K (i + 1) row =
          Some (if K \<ge> 0 \<and> ?D > K then -1 else ?D)"
        using "1.IH"(2) [OF True rw False] True rowlen inv "1.prems" by simp
      then show ?thesis using True rw False by (subst lev_rows.simps) simp
    next
      case K: True
      then obtain w where w: "stray = Some w" using "1.prems"(7) by auto
      have "row \<noteq> []" using rowlen by auto
      then obtain m where m: "minimum (Some w) row (int (length row)) = Some m"
        "\<forall>k<length row. m \<le> row ! k"
        using minimum_lower by blast
      have "int (length row) = int (length seq2) + 1" using rowlen by simp
      then have m': "minimum stray row (int (length seq2) + 1) = Some m"
        using m(1) w by simp
      show ?thesis
      proof (cases "m > K")
        case True
        have "\<forall>k\<le>length seq2. m \<le> cell seq1 seq2 i k"
          using m(2) rownth rowlen by simp
        then have "\<forall>k\<le>length seq2. m \<le> cell seq1 seq2 (length seq1) k"
          using cell_rows_lower [of seq2 m seq1 i "length seq1"] \<open>i \<le> length seq1\<close> by blast
        then have "?D > K" using True by fastforce
        then show ?thesis
          using \<open>i \<le> length seq1\<close> rw K m' True by (subst lev_rows.simps) simp
      next
        case False
        have "lev_rows stray cmp seq1 seq2 K (i + 1) row =
          Some (if K \<ge> 0 \<and> ?D > K then -1 else ?D)"
          using "1.IH"(1) [OF True rw K m' False] True rowlen inv "1.prems" by simp
        then show ?thesis
          using True rw K m' False by (subst lev_rows.simps) simp
      qed
    qed
  qed
qed

section \<open>Levenshtein: the capped and the uncapped call\<close>

lemma levenshtein_swap:
  "length s1 < length s2 \<Longrightarrow>
   levenshtein stray cmp alloc s1 s2 K = levenshtein stray cmp alloc s2 s1 K"
  by (simp add: levenshtein_def)

lemma levenshtein_ordered_value:
  assumes "faithful cmp" "alloc 0" "K \<ge> 0 \<longrightarrow> stray \<noteq> None" "length s2 \<le> length s1"
  shows "levenshtein stray cmp alloc s1 s2 K =
           Some (if K \<ge> 0 \<and> int (edit_distance s1 s2) > K then -1 else int (edit_distance s1 s2))"
proof -
  let ?e = "int (edit_distance s1 s2)"
  have diff: "int (length s1) - int (length s2) \<le> ?e"
    using edit_distance_ge_diff1 [of s1 s2] by linarith
  consider (gap) "K \<ge> 0 \<and> int (length s1) - int (length s2) > K"
    | (e1) "\<not> (K \<ge> 0 \<and> int (length s1) - int (length s2) > K)" "length s1 = 0"
    | (e2) "\<not> (K \<ge> 0 \<and> int (length s1) - int (length s2) > K)" "length s1 \<noteq> 0" "length s2 = 0"
    | (dp) "\<not> (K \<ge> 0 \<and> int (length s1) - int (length s2) > K)" "length s1 \<noteq> 0" "length s2 \<noteq> 0"
    by blast
  then show ?thesis
  proof cases
    case gap
    then show ?thesis using diff assms(4) by (simp add: levenshtein_def)
  next
    case e1
    then show ?thesis using assms(4) by (simp add: levenshtein_def)
  next
    case e2
    then show ?thesis using assms(4) by (auto simp: levenshtein_def)
  next
    case dp
    define column where "column = 0 # map int [1..<length s2 + 1]"
    have len: "length column = length s2 + 1" by (simp add: column_def del: upt_Suc)
    have init: "\<forall>k. 1 \<le> k \<and> k \<le> length s2 \<longrightarrow> column ! k = cell s1 s2 (1 - 1) k"
    proof (intro allI impI)
      fix k assume k: "1 \<le> k \<and> k \<le> length s2"
      then obtain k' where k': "k = Suc k'" by (cases k) auto
      have "column ! k = map int [1..<length s2 + 1] ! k'" by (simp add: column_def k')
      also have "\<dots> = int k" using k k' by (simp del: upt_Suc)
      finally show "column ! k = cell s1 s2 (1 - 1) k" using k by (simp add: cell_0_left)
    qed
    have "lev_rows stray cmp s1 s2 K 1 column =
        Some (if K \<ge> 0 \<and> cell s1 s2 (length s1) (length s2) > K then -1
              else cell s1 s2 (length s1) (length s2))"
      using lev_rows_correct [of cmp s2 K stray 1 s1 column] assms(1,3) dp len init by simp
    moreover have "levenshtein stray cmp alloc s1 s2 K = lev_rows stray cmp s1 s2 K 1 column"
      using dp assms(2,4) by (auto simp add: levenshtein_def column_def Let_def simp del: upt_Suc)
    ultimately show ?thesis
      by (simp add: cell_full)
  qed
qed

lemma levenshtein_value:
  assumes "faithful cmp" "alloc 0" "K \<ge> 0 \<longrightarrow> stray \<noteq> None"
  shows "levenshtein stray cmp alloc A B K =
           Some (if K \<ge> 0 \<and> int (edit_distance A B) > K then -1 else int (edit_distance A B))"
proof (cases "length A < length B")
  case True
  then show ?thesis
    using levenshtein_ordered_value [of cmp alloc K stray A B] assms
      levenshtein_swap [OF True, of stray cmp alloc K]
    by (simp add: edit_distance_sym [of B A])
next
  case False
  then show ?thesis using levenshtein_ordered_value [of cmp alloc K stray B A] assms by simp
qed

lemma levenshtein_gap:
  assumes "0 \<le> k" "int (max (length A) (length B)) - int (min (length A) (length B)) > k"
  shows "levenshtein stray cmp alloc A B k = Some (-1)"
  using assms by (auto simp: levenshtein_def)

text \<open>
  Claim C1.  With a faithful comparison and a successful allocation, for every cap
  \<open>k \<ge> 0\<close> the capped call returns what the uncapped call (\<open>max_dist = -1\<close>) returns when
  the edit distance is at most \<open>k\<close>, and \<open>-1\<close> otherwise; the uncapped call returns the edit
  distance.  The capped call is taken with any word \<open>w\<close> for the cell the row-minimum scan
  reads just outside the row.  When the length gap alone exceeds \<open>k\<close> the result is \<open>-1\<close>
  whatever the allocator and the comparison would do, that is, before any DP work.
\<close>

theorem levenshtein_capping_law:
  assumes "faithful cmp" "alloc 0" "0 \<le> k"
  shows "levenshtein stray cmp alloc A B (-1) = Some (int (edit_distance A B))
    \<and> levenshtein (Some w) cmp alloc A B k =
        (if int (edit_distance A B) \<le> k then levenshtein stray cmp alloc A B (-1) else Some (-1))
    \<and> (int (max (length A) (length B)) - int (min (length A) (length B)) > k \<longrightarrow>
         levenshtein stray' cmp' alloc' A B k = Some (-1))"
proof (intro conjI impI)
  show u: "levenshtein stray cmp alloc A B (-1) = Some (int (edit_distance A B))"
    using levenshtein_value [of cmp alloc "-1" stray A B] assms(1,2) by simp
  show "levenshtein (Some w) cmp alloc A B k =
        (if int (edit_distance A B) \<le> k then levenshtein stray cmp alloc A B (-1) else Some (-1))"
    using levenshtein_value [of cmp alloc k "Some w" A B] assms u by simp
next
  assume "int (max (length A) (length B)) - int (min (length A) (length B)) > k"
  then show "levenshtein stray' cmp' alloc' A B k = Some (-1)"
    using assms(3) by (rule levenshtein_gap [rotated])
qed

theorem levenshtein_capping_law_witness:
  "faithful (native_comp :: char comparator) \<and> (0::int) \<le> 1
   \<and> levenshtein None native_comp (\<lambda>n. True) ''abc'' ''abcd'' (-1) = Some 1
   \<and> levenshtein (Some 0) native_comp (\<lambda>n. True) ''abc'' ''abcd'' 1 = Some 1
   \<and> levenshtein (Some 0) native_comp (\<lambda>n. True) ''abc'' ''abcde'' 1 = Some (-1)
   \<and> levenshtein None (\<lambda>x y. -1) (\<lambda>n. False) ''abc'' ''abcde'' 1 = Some (-1)"
proof -
  have e1: "edit_distance ''abc'' ''abcd'' = 1" by simp
  have e2: "edit_distance ''abc'' ''abcde'' = 2" by simp
  show ?thesis
    using levenshtein_capping_law [of native_comp "\<lambda>n. True" 1 None "''abc''" "''abcd''" 0]
      levenshtein_capping_law [of native_comp "\<lambda>n. True" 1 None "''abc''" "''abcde''" 0
        None "\<lambda>x y. -1" "\<lambda>n. False"]
    by (simp add: e1 e2 faithful_native)
qed

lemma minimum_loop_strict: "0 \<le> len \<Longrightarrow> minimum_loop None column len mn = None"
proof (induction "nat len" arbitrary: len mn)
  case 0
  then have "len = 0" by simp
  then show ?case by (subst minimum_loop.simps) (simp add: column_at_def)
next
  case (Suc n)
  then have "n = nat (len - 1)" "0 \<le> len - 1" by linarith+
  then have "\<And>mn'. minimum_loop None column (len - 1) mn' = None"
    using Suc.hyps(1) by blast
  then show ?case using Suc.prems
    by (subst minimum_loop.simps) (simp split: option.splits)
qed

lemma minimum_strict: "0 < len \<Longrightarrow> minimum None column len = None"
  using minimum_loop_strict [of "len - 1" column]
  by (simp add: minimum_def split: option.splits)

text \<open>
  Claim C10.  The scan of \<open>minimum\<close> on the row of two cells that the capped call on
  \<open>"a"\<close>, \<open>"b"\<close> produces: after index 0 the loop test succeeds once more and the body
  reads index \<open>-1\<close>.  With reads outside the row counted as errors the scan ends in the
  error branch, and so does the capped call; with the word 0 found there, the scan returns
  that word instead of the row's minimum 1.
\<close>

theorem minimum_reads_before_row:
  "minimum None [1, 1] 2 = None
   \<and> minimum (Some 0) [1, 1] 2 = Some 0
   \<and> levenshtein None native_comp (\<lambda>n. True) ''a'' ''b'' 1 = None"
  by (simp add: minimum_def minimum_loop.simps column_at_def levenshtein_def lev_rows.simps
      lev_row.simps MIN3_def native_comp_def)

section \<open>Normalized Levenshtein distance\<close>

lemma MAX3_max: "MAX3 a b c = max (max a b) c"
  by (simp add: MAX3_def max_def)

lemma nlev_row_correct:
  assumes "faithful cmp" "1 \<le> i" "i \<le> length seq1"
  shows "1 \<le> j \<Longrightarrow> j \<le> length seq2 + 1 \<Longrightarrow> length column = length seq2 + 1
    \<Longrightarrow> length lengths = length seq2 + 1
    \<Longrightarrow> (\<forall>k<j. column ! k = cell seq1 seq2 i k)
    \<Longrightarrow> (\<forall>k. j \<le> k \<and> k \<le> length seq2 \<longrightarrow> column ! k = cell seq1 seq2 (i - 1) k)
    \<Longrightarrow> lst = cell seq1 seq2 (i - 1) (j - 1)
    \<Longrightarrow> (\<forall>k<j. int (max i k) \<le> lengths ! k)
    \<Longrightarrow> (\<forall>k. j \<le> k \<and> k \<le> length seq2 \<longrightarrow> int (max (i - 1) k) \<le> lengths ! k)
    \<Longrightarrow> int (max (i - 1) (j - 1)) \<le> llast
    \<Longrightarrow> \<exists>lengths'. nlev_row cmp seq1 seq2 i j lst llast column lengths =
            Some (map (cell seq1 seq2 i) [0..<length seq2 + 1], lengths')
          \<and> length lengths' = length seq2 + 1
          \<and> (\<forall>k\<le>length seq2. int (max i k) \<le> lengths' ! k)"
  using assms
proof (induction cmp seq1 seq2 i j lst llast column lengths rule: nlev_row.induct)
  case (1 cmp seq1 seq2 i j lst llast column lengths)
  show ?case
  proof (cases "j \<le> length seq2")
    case False
    then have j: "j = length seq2 + 1" using "1.prems" by linarith
    have "column = map (cell seq1 seq2 i) [0..<length seq2 + 1]"
    proof (rule nth_equalityI)
      show "length column = length (map (cell seq1 seq2 i) [0..<length seq2 + 1])"
        using "1.prems" by simp
    next
      fix k assume "k < length column"
      then have k: "k < length seq2 + 1" using "1.prems" by simp
      then have "column ! k = cell seq1 seq2 i k" using "1.prems"(5) j by simp
      then show "column ! k = map (cell seq1 seq2 i) [0..<length seq2 + 1] ! k"
        using k by (simp del: upt_Suc)
    qed
    moreover have "\<forall>k\<le>length seq2. int (max i k) \<le> lengths ! k"
      using "1.prems"(8) j by simp
    ultimately show ?thesis
      using False "1.prems"(4) by (subst nlev_row.simps) simp
  next
    case True
    define c where "c = cmp (seq1 ! (i - 1)) (seq2 ! (j - 1))"
    define ic where "ic = column ! (j - 1) + 1"
    define dc where "dc = column ! j + 1"
    define rc where "rc = lst + (if c = 0 then 1 else 0)"
    define column' where "column' = column[j := MIN3 ic dc rc]"
    define lic where "lic = (if ic = column' ! j then lengths ! (j - 1) + 1 else 0)"
    define ldc where "ldc = (if dc = column' ! j then lengths ! j + 1 else 0)"
    define lrc where "lrc = (if rc = column' ! j then llast + 1 else 0)"
    define lengths' where "lengths' = lengths[j := MAX3 lic ldc lrc]"
    have f: "faithful cmp" using "1.prems" by simp
    have cn: "c \<noteq> -1" using f by (simp add: faithful_def c_def)
    have cost: "(if c = 0 then 1 else 0) = (if seq1 ! (i - 1) = seq2 ! (j - 1) then 0 else (1::int))"
      using f by (auto simp: faithful_def c_def)
    obtain i' where i': "i = Suc i'" using "1.prems" by (cases i) auto
    obtain j' where j': "j = Suc j'" using "1.prems" by (cases j) auto
    have i'l: "i' < length seq1" using "1.prems" i' by simp
    have j'l: "j' < length seq2" using True j' by simp
    have up: "column ! j = cell seq1 seq2 i' j" using "1.prems"(6) True i' by simp
    have left: "column ! (j - 1) = cell seq1 seq2 i j'" using "1.prems"(5) j' by simp
    have diag: "lst = cell seq1 seq2 i' j'" using "1.prems"(7) i' j' by simp
    have new: "MIN3 ic dc rc = cell seq1 seq2 i j"
      using cell_Suc_Suc [OF i'l j'l] up left diag cost i' j'
      by (simp add: MIN3_min ic_def dc_def rc_def min.commute)
    have jl: "j < length column" using True "1.prems" by simp
    have jll: "j < length lengths" using True "1.prems" by simp
    have cj: "column' ! j = MIN3 ic dc rc" using jl by (simp add: column'_def)
    have len': "length column' = length seq2 + 1" using "1.prems" by (simp add: column'_def)
    have llen': "length lengths' = length seq2 + 1" using "1.prems" by (simp add: lengths'_def)
    have below: "\<forall>k<j + 1. column' ! k = cell seq1 seq2 i k"
    proof (intro allI impI)
      fix k assume "k < j + 1"
      then consider "k < j" | "k = j" by linarith
      then show "column' ! k = cell seq1 seq2 i k"
      proof cases
        case 1
        then show ?thesis using "1.prems"(5) by (simp add: column'_def)
      next
        case 2
        then show ?thesis using new jl by (simp add: column'_def)
      qed
    qed
    have above: "\<forall>k. j + 1 \<le> k \<and> k \<le> length seq2 \<longrightarrow> column' ! k = cell seq1 seq2 (i - 1) k"
      using "1.prems"(6) by (simp add: column'_def)
    have old: "column ! j = cell seq1 seq2 (i - 1) (j + 1 - 1)"
      using up i' by simp
    have l_left: "int (max i j') \<le> lengths ! (j - 1)" using "1.prems"(8) j' by simp
    have l_up: "int (max i' j) \<le> lengths ! j" using "1.prems"(9) True i' by simp
    have l_diag: "int (max i' j') \<le> llast" using "1.prems"(10) i' j' by simp
    have one: "ic = column' ! j \<or> dc = column' ! j \<or> rc = column' ! j"
      unfolding cj by (simp add: MIN3_def)
    have newl: "int (max i j) \<le> MAX3 lic ldc lrc"
      using one l_left l_up l_diag i' j'
      by (auto simp: MAX3_max lic_def ldc_def lrc_def max_def split: if_splits)
    have lbelow: "\<forall>k<j + 1. int (max i k) \<le> lengths' ! k"
    proof (intro allI impI)
      fix k assume "k < j + 1"
      then consider "k < j" | "k = j" by linarith
      then show "int (max i k) \<le> lengths' ! k"
      proof cases
        case 1
        then show ?thesis using "1.prems"(8) by (simp add: lengths'_def)
      next
        case 2
        then show ?thesis using newl jll by (simp add: lengths'_def)
      qed
    qed
    have labove: "\<forall>k. j + 1 \<le> k \<and> k \<le> length seq2 \<longrightarrow> int (max (i - 1) k) \<le> lengths' ! k"
      using "1.prems"(9) by (simp add: lengths'_def)
    have lold: "int (max (i - 1) (j + 1 - 1)) \<le> lengths ! j"
      using l_up i' by simp
    have step: "nlev_row cmp seq1 seq2 i j lst llast column lengths =
        nlev_row cmp seq1 seq2 i (j + 1) (column ! j) (lengths ! j) column' lengths'"
      by (subst nlev_row.simps)
        (simp only: True if_True Let_def c_def [symmetric] cn if_False ic_def [symmetric]
           dc_def [symmetric] rc_def [symmetric] column'_def [symmetric] lic_def [symmetric]
           ldc_def [symmetric] lrc_def [symmetric] lengths'_def [symmetric])
    have "\<exists>ls. nlev_row cmp seq1 seq2 i (j + 1) (column ! j) (lengths ! j) column' lengths' =
            Some (map (cell seq1 seq2 i) [0..<length seq2 + 1], ls)
          \<and> length ls = length seq2 + 1
          \<and> (\<forall>k\<le>length seq2. int (max i k) \<le> ls ! k)"
      using "1.IH" [OF True refl ic_def dc_def c_def cn rc_def column'_def refl lic_def ldc_def
          lrc_def lengths'_def]
        True len' llen' below above old lbelow labove lold "1.prems"(11,12,13)
      by simp
    then show ?thesis
      using step by simp
  qed
qed

lemma nlev_rows_correct:
  assumes "faithful cmp" "1 \<le> length seq2"
  shows "1 \<le> i \<Longrightarrow> i \<le> length seq1 + 1 \<Longrightarrow> length column = length seq2 + 1
    \<Longrightarrow> length lengths = length seq2 + 1
    \<Longrightarrow> (\<forall>k. 1 \<le> k \<and> k \<le> length seq2 \<longrightarrow> column ! k = cell seq1 seq2 (i - 1) k)
    \<Longrightarrow> (\<forall>k. 1 \<le> k \<and> k \<le> length seq2 \<longrightarrow> int (max (i - 1) k) \<le> lengths ! k)
    \<Longrightarrow> \<exists>column' lengths'. nlev_rows cmp seq1 seq2 i column lengths = Some (column', lengths')
          \<and> column' ! length seq2 = cell seq1 seq2 (length seq1) (length seq2)
          \<and> int (max (length seq1) (length seq2)) \<le> lengths' ! length seq2"
  using assms
proof (induction cmp seq1 seq2 i column lengths rule: nlev_rows.induct)
  case (1 cmp seq1 seq2 i column lengths)
  show ?case
  proof (cases "i \<le> length seq1")
    case False
    then have i: "i = length seq1 + 1" using "1.prems" by linarith
    have "column ! length seq2 = cell seq1 seq2 (length seq1) (length seq2)"
      using "1.prems"(5,8) i by simp
    moreover have "int (max (length seq1) (length seq2)) \<le> lengths ! length seq2"
      using "1.prems"(6,8) i by simp
    ultimately show ?thesis using False by (subst nlev_rows.simps) simp
  next
    case True
    define row where "row = map (cell seq1 seq2 i) [0..<length seq2 + 1]"
    have c0: "\<forall>k<1. (column[0 := int i]) ! k = cell seq1 seq2 i k"
      using True "1.prems"(3) by (simp add: cell_0_right)
    have cr: "\<forall>k. 1 \<le> k \<and> k \<le> length seq2 \<longrightarrow> (column[0 := int i]) ! k = cell seq1 seq2 (i - 1) k"
      using "1.prems"(5) by simp
    have l0: "int i - 1 = cell seq1 seq2 (i - 1) (1 - 1)"
      using "1.prems"(1) True by (simp add: cell_0_right)
    have lc0: "\<forall>k<1. int (max i k) \<le> (lengths[0 := int i]) ! k"
      using "1.prems"(4) by simp
    have lcr: "\<forall>k. 1 \<le> k \<and> k \<le> length seq2 \<longrightarrow> int (max (i - 1) k) \<le> (lengths[0 := int i]) ! k"
      using "1.prems"(6) by simp
    have ll0: "int (max (i - 1) (1 - 1)) \<le> int i - 1"
      using "1.prems"(1) by simp
    obtain ls where rw: "nlev_row cmp seq1 seq2 i 1 (int i - 1) (int i - 1)
          (column[0 := int i]) (lengths[0 := int i]) = Some (row, ls)"
      and lslen: "length ls = length seq2 + 1"
      and lsnth: "\<forall>k\<le>length seq2. int (max i k) \<le> ls ! k"
      unfolding row_def
      using nlev_row_correct [OF "1.prems"(7) "1.prems"(1) True, of 1 seq2 "column[0 := int i]"
          "lengths[0 := int i]" "int i - 1" "int i - 1"]
        c0 cr l0 lc0 lcr ll0 "1.prems"(3,4) by auto
    have rowlen: "length row = length seq2 + 1" by (simp add: row_def)
    have rownth: "\<forall>k\<le>length seq2. row ! k = cell seq1 seq2 i k"
      by (auto simp: row_def nth_append simp del: upt_Suc)
    have inv: "\<forall>k. 1 \<le> k \<and> k \<le> length seq2 \<longrightarrow> row ! k = cell seq1 seq2 (i + 1 - 1) k"
      using rownth by simp
    have linv: "\<forall>k. 1 \<le> k \<and> k \<le> length seq2 \<longrightarrow> int (max (i + 1 - 1) k) \<le> ls ! k"
      using lsnth by simp
    have "\<exists>column' lengths'. nlev_rows cmp seq1 seq2 (i + 1) row ls = Some (column', lengths')
          \<and> column' ! length seq2 = cell seq1 seq2 (length seq1) (length seq2)
          \<and> int (max (length seq1) (length seq2)) \<le> lengths' ! length seq2"
      using "1.IH" [OF True rw refl] True rowlen lslen inv linv "1.prems"(7,8) by simp
    then show ?thesis using True rw by (subst nlev_rows.simps) simp
  qed
qed

lemma nlevenshtein_method2:
  assumes "faithful cmp" "alloc 0" "alloc 1" "length s2 \<le> length s1" "s2 \<noteq> []" "method \<noteq> 1"
  shows "\<exists>flen. nlevenshtein stray cmp alloc s1 s2 method =
           Some (real (edit_distance s1 s2) / real_of_int flen)
         \<and> int (length s1) \<le> flen"
proof -
  define column where "column = 0 # map int [1..<length s2 + 1]"
  have len: "length column = length s2 + 1" by (simp add: column_def del: upt_Suc)
  have nth: "\<And>k. 1 \<le> k \<and> k \<le> length s2 \<Longrightarrow> column ! k = int k"
  proof -
    fix k assume k: "1 \<le> k \<and> k \<le> length s2"
    then obtain k' where k': "k = Suc k'" by (cases k) auto
    have "column ! k = map int [1..<length s2 + 1] ! k'" by (simp add: column_def k')
    also have "\<dots> = int k" using k k' by (simp del: upt_Suc)
    finally show "column ! k = int k" .
  qed
  have init: "\<forall>k. 1 \<le> k \<and> k \<le> length s2 \<longrightarrow> column ! k = cell s1 s2 (1 - 1) k"
    using nth by (simp add: cell_0_left)
  have linit: "\<forall>k. 1 \<le> k \<and> k \<le> length s2 \<longrightarrow> int (max (1 - 1) k) \<le> column ! k"
    using nth by simp
  have s2: "1 \<le> length s2" using assms(5) by (cases s2) auto
  obtain column' lengths' where r: "nlev_rows cmp s1 s2 1 column column = Some (column', lengths')"
    and d: "column' ! length s2 = cell s1 s2 (length s1) (length s2)"
    and l: "int (max (length s1) (length s2)) \<le> lengths' ! length s2"
    using nlev_rows_correct [OF assms(1) s2, of 1 s1 column column] len init linit by auto
  have "nlevenshtein stray cmp alloc s1 s2 method =
      Some (real_of_int (column' ! length s2) / real_of_int (lengths' ! length s2))"
    using assms r s2 by (auto simp: nlevenshtein_def Let_def column_def simp del: upt_Suc)
  then show ?thesis using d l assms(4) by (auto simp: cell_full)
qed

lemma nlevenshtein_method1:
  assumes "faithful cmp" "alloc 0" "length s2 \<le> length s1" "s2 \<noteq> []"
  shows "nlevenshtein stray cmp alloc s1 s2 1 =
           Some (real (edit_distance s1 s2) / real (length s1))"
proof -
  have "levenshtein stray cmp alloc s1 s2 (-1) = Some (int (edit_distance s1 s2))"
    using levenshtein_value [of cmp alloc "-1" stray s1 s2] assms(1,2) by simp
  then show ?thesis using assms(3,4) by (auto simp: nlevenshtein_def Let_def)
qed

lemma nlevenshtein_ordered:
  assumes "faithful cmp" "alloc 0" "alloc 1" "length s2 \<le> length s1" "method = 1 \<or> method = 2"
  shows "\<exists>r. nlevenshtein stray cmp alloc s1 s2 method = Some r \<and> 0 \<le> r \<and> r \<le> 1
           \<and> (r = 0 \<longleftrightarrow> s1 = s2) \<and> (s1 \<noteq> [] \<and> s2 = [] \<longrightarrow> r = 1)"
proof (cases "s2 = []")
  case True
  then show ?thesis by (auto simp: nlevenshtein_def Let_def)
next
  case False
  then have s1: "s1 \<noteq> []" using assms(4) by auto
  have le: "edit_distance s1 s2 \<le> length s1"
    using edit_distance_le_max [of s1 s2] assms(4) by simp
  have z: "edit_distance s1 s2 = 0 \<longleftrightarrow> s1 = s2"
    using edit_distance_eq_0 [of s1 s2] by auto
  obtain flen where r: "nlevenshtein stray cmp alloc s1 s2 method =
           Some (real (edit_distance s1 s2) / real_of_int flen)" and fl: "int (length s1) \<le> flen"
  proof (cases "method = 1")
    case True
    then show ?thesis
      using nlevenshtein_method1 [of cmp alloc s2 s1 stray] assms False that [of "int (length s1)"]
      by simp
  next
    case m: False
    then show ?thesis
      using nlevenshtein_method2 [of cmp alloc s2 s1 "method" stray] assms False that by blast
  qed
  have pos: "0 < flen" using fl s1 by (cases s1) auto
  have "real (edit_distance s1 s2) \<le> real_of_int flen"
    using le fl by linarith
  then have "real (edit_distance s1 s2) / real_of_int flen \<le> 1"
    using pos by simp
  moreover have "0 \<le> real (edit_distance s1 s2) / real_of_int flen"
    using pos by simp
  moreover have "real (edit_distance s1 s2) / real_of_int flen = 0 \<longleftrightarrow> s1 = s2"
    using pos z by simp
  ultimately show ?thesis using r False by simp
qed

text \<open>
  Claim C7.  With a faithful comparison and successful allocations, for both methods
  \<open>nlevenshtein_py\<close> returns a value between 0 and 1 (the quotient is taken exactly);
  the value is 0 exactly when the two sequences are equal, 1 when exactly one of them is
  empty, and 0 when both are.
\<close>

theorem nlevenshtein_bounds:
  assumes "faithful cmp" "alloc 0" "alloc 1" "method = 1 \<or> method = 2"
  shows "\<exists>r. nlevenshtein_py stray cmp alloc A B method = Some (Inr (PyFloat r))
           \<and> 0 \<le> r \<and> r \<le> 1 \<and> (r = 0 \<longleftrightarrow> A = B)
           \<and> ((A = [] \<and> B \<noteq> []) \<or> (A \<noteq> [] \<and> B = []) \<longrightarrow> r = 1)
           \<and> (A = [] \<and> B = [] \<longrightarrow> r = 0)"
proof (cases "length A < length B")
  case True
  then obtain r where r: "nlevenshtein stray cmp alloc B A method = Some r" "0 \<le> r" "r \<le> 1"
    "r = 0 \<longleftrightarrow> B = A" "B \<noteq> [] \<and> A = [] \<longrightarrow> r = 1"
    using nlevenshtein_ordered [of cmp alloc A B "method" stray] assms by auto
  have "nlevenshtein_py stray cmp alloc A B method = Some (Inr (PyFloat r))"
    using True r(1,2) assms(4) by (auto simp: nlevenshtein_py_def)
  then show ?thesis using r True by auto
next
  case False
  then obtain r where r: "nlevenshtein stray cmp alloc A B method = Some r" "0 \<le> r" "r \<le> 1"
    "r = 0 \<longleftrightarrow> A = B" "A \<noteq> [] \<and> B = [] \<longrightarrow> r = 1"
    using nlevenshtein_ordered [of cmp alloc B A "method" stray] assms by auto
  have "nlevenshtein_py stray cmp alloc A B method = Some (Inr (PyFloat r))"
    using False r(1,2) assms(4) by (auto simp: nlevenshtein_py_def)
  then show ?thesis using r False by auto
qed

theorem nlevenshtein_bounds_witness:
  "faithful (native_comp :: char comparator)
   \<and> nlevenshtein_py None native_comp (\<lambda>n. True) ''abc'' ''acd'' 2 = Some (Inr (PyFloat (1 / 2)))
   \<and> nlevenshtein_py None native_comp (\<lambda>n. True) ''ab'' ''acd'' 1 = Some (Inr (PyFloat (2 / 3)))
   \<and> nlevenshtein_py None native_comp (\<lambda>n. True) ''abc'' '''' 2 = Some (Inr (PyFloat 1))
   \<and> nlevenshtein_py None native_comp (\<lambda>n. True) '''' '''' 1 = Some (Inr (PyFloat 0))"
  using nlevenshtein_bounds [of native_comp "\<lambda>n. True" 2 None "''abc''" "''acd''"]
    nlevenshtein_bounds [of native_comp "\<lambda>n. True" 2 None "''abc''" "''''"]
    faithful_native [where ?'a = char]
  by (simp add: nlevenshtein_py_def nlevenshtein_def nlev_rows.simps nlev_row.simps MIN3_def MAX3_def
      levenshtein_def lev_rows.simps lev_row.simps native_comp_def Let_def)

section \<open>Longest common substrings: the scan\<close>

lemma run_first_row:
  assumes "0 < length xs" "j < length ys"
  shows "run xs ys 0 j = (if xs ! 0 = ys ! j then 1 else 0)"
proof -
  have tx: "take (Suc 0) xs = [xs ! 0]"
    using assms(1) by (cases xs) auto
  have ty: "rev (take (Suc j) ys) = ys ! j # rev (take j ys)"
    using assms(2) by (simp add: take_Suc_conv_app_nth)
  show ?thesis unfolding run_def tx ty by simp
qed

lemma run_first_column:
  assumes "i < length xs" "0 < length ys"
  shows "run xs ys i 0 = (if xs ! i = ys ! 0 then 1 else 0)"
proof -
  have ty: "take (Suc 0) ys = [ys ! 0]"
    using assms(2) by (cases ys) auto
  have tx: "rev (take (Suc i) xs) = xs ! i # rev (take i xs)"
    using assms(1) by (simp add: take_Suc_conv_app_nth)
  show ?thesis unfolding run_def tx ty by simp
qed

lemma run_Suc_Suc:
  assumes "Suc i < length xs" "Suc j < length ys"
  shows "run xs ys (Suc i) (Suc j) = (if xs ! Suc i = ys ! Suc j then Suc (run xs ys i j) else 0)"
proof -
  have tx: "rev (take (Suc (Suc i)) xs) = xs ! Suc i # rev (take (Suc i) xs)"
    using assms(1) by (simp add: take_Suc_conv_app_nth)
  have ty: "rev (take (Suc (Suc j)) ys) = ys ! Suc j # rev (take (Suc j) ys)"
    using assms(2) by (simp add: take_Suc_conv_app_nth)
  show ?thesis unfolding run_def [of xs ys "Suc i" "Suc j"] tx ty
    by (simp add: run_def)
qed

lemma lcs_row_scan:
  assumes "faithful cmp" "i < length seq1"
  shows "j \<le> length seq2 \<Longrightarrow> length seq2 \<le> length column
    \<Longrightarrow> (\<forall>k<j. column ! k = int (run seq1 seq2 i k))
    \<Longrightarrow> (0 < i \<longrightarrow> (\<forall>k. j \<le> k \<and> k < length seq2 \<longrightarrow> column ! k = int (run seq1 seq2 (i - 1) k)))
    \<Longrightarrow> (0 < i \<and> 0 < j \<longrightarrow> lst = int (run seq1 seq2 (i - 1) (j - 1)))
    \<Longrightarrow> \<exists>lst' column'. lcs_row cmp seq1 seq2 i j lst mlen stack column =
            Some (lst', fst (foldl (scan_step seq1 seq2) (mlen, stack) (map (Pair i) [j..<length seq2])),
                  snd (foldl (scan_step seq1 seq2) (mlen, stack) (map (Pair i) [j..<length seq2])),
                  column')
          \<and> length column' = length column
          \<and> (\<forall>k<length seq2. column' ! k = int (run seq1 seq2 i k))"
  using assms
proof (induction cmp seq1 seq2 i j lst mlen stack column rule: lcs_row.induct)
  case (1 cmp seq1 seq2 i j lst mlen stack column)
  show ?case
  proof (cases "j < length seq2")
    case False
    then have j: "j = length seq2" using "1.prems" by simp
    show ?thesis using False "1.prems"(3) j by (subst lcs_row.simps) simp
  next
    case True
    define c where "c = cmp (seq1 ! i) (seq2 ! j)"
    define v where "v = (if i = 0 \<or> j = 0 then 1 else lst + 1)"
    have f: "faithful cmp" using "1.prems" by simp
    have cn: "c \<noteq> -1" using f by (simp add: faithful_def c_def)
    have ceq: "c \<noteq> 0 \<longleftrightarrow> seq1 ! i = seq2 ! j" using f by (auto simp: faithful_def c_def)
    have il: "i < length seq1" using "1.prems" by simp
    have jc: "j < length column" using True "1.prems" by simp
    have up: "[j..<length seq2] = j # [j + 1..<length seq2]"
      using True by (simp add: upt_conv_Cons)
    have runij: "int (run seq1 seq2 i j) = (if c \<noteq> 0 then v else 0)"
    proof (cases "i = 0 \<or> j = 0")
      case True
      then show ?thesis
        using run_first_row [of seq1 j seq2] run_first_column [of i seq1 seq2] il \<open>j < length seq2\<close> ceq
        by (auto simp: v_def)
    next
      case False
      then obtain i' j' where ij: "i = Suc i'" "j = Suc j'"
        by (cases i; cases j) auto
      have "lst = int (run seq1 seq2 i' j')" using "1.prems"(5) ij by simp
      then show ?thesis
        using run_Suc_Suc [of i' seq1 j' seq2] il \<open>j < length seq2\<close> ceq ij
        by (auto simp: v_def)
    qed
    define column' where "column' = column[j := (if c \<noteq> 0 then v else 0)]"
    define s' where "s' = scan_step seq1 seq2 (mlen, stack) (i, j)"
    have len': "length seq2 \<le> length column'" using "1.prems" by (simp add: column'_def)
    have below: "\<forall>k<j + 1. column' ! k = int (run seq1 seq2 i k)"
    proof (intro allI impI)
      fix k assume "k < j + 1"
      then consider "k < j" | "k = j" by linarith
      then show "column' ! k = int (run seq1 seq2 i k)"
      proof cases
        case 1
        then show ?thesis using "1.prems"(3) by (simp add: column'_def)
      next
        case 2
        then show ?thesis using runij jc by (simp add: column'_def)
      qed
    qed
    have above: "0 < i \<longrightarrow> (\<forall>k. j + 1 \<le> k \<and> k < length seq2 \<longrightarrow>
        column' ! k = int (run seq1 seq2 (i - 1) k))"
      using "1.prems"(4) by (simp add: column'_def)
    have old: "0 < i \<and> 0 < j + 1 \<longrightarrow> column ! j = int (run seq1 seq2 (i - 1) (j + 1 - 1))"
      using "1.prems"(4) True by simp
    have step: "lcs_row cmp seq1 seq2 i j lst mlen stack column =
        lcs_row cmp seq1 seq2 i (j + 1) (column ! j) (fst s') (snd s') column'"
    proof (cases "c = 0")
      case True
      then have "s' = (mlen, stack)" using runij by (simp add: s'_def scan_step_def)
      then show ?thesis
        using True \<open>j < length seq2\<close>
        by (subst lcs_row.simps) (simp add: c_def [symmetric] column'_def)
    next
      case False
      have vpos: "0 < v"
      proof -
        have "v = int (run seq1 seq2 i j)" using runij False by simp
        moreover have "run seq1 seq2 i j \<noteq> 0"
          using run_first_row [of seq1 j seq2] run_first_column [of i seq1 seq2]
            il \<open>j < length seq2\<close> ceq False
          by (cases i; cases j) (auto simp: run_Suc_Suc)
        ultimately show ?thesis by simp
      qed
      have s': "s' = (if v > mlen then (v, [(i, j)])
                      else if v = mlen then (mlen, stack @ [(i, j)]) else (mlen, stack))"
        using runij False vpos by (simp add: s'_def scan_step_def)
      show ?thesis
        using False cn \<open>j < length seq2\<close>
        by (subst lcs_row.simps)
          (simp add: c_def [symmetric] Let_def v_def [symmetric] s' column'_def)
    qed
    have "\<exists>lst' column''. lcs_row cmp seq1 seq2 i (j + 1) (column ! j) (fst s') (snd s') column' =
            Some (lst', fst (foldl (scan_step seq1 seq2) (fst s', snd s') (map (Pair i) [j + 1..<length seq2])),
                  snd (foldl (scan_step seq1 seq2) (fst s', snd s') (map (Pair i) [j + 1..<length seq2])),
                  column'')
          \<and> length column'' = length column'
          \<and> (\<forall>k<length seq2. column'' ! k = int (run seq1 seq2 i k))"
    proof (cases "c = 0")
      case True
      then have s'e: "s' = (mlen, stack)" using runij by (simp add: s'_def scan_step_def)
      have c': "column' = column[j := 0]" using True by (simp add: column'_def)
      show ?thesis
        using "1.IH"(4) [OF \<open>j < length seq2\<close> refl c_def cn] True
          len' below above old "1.prems"(6,7) \<open>j < length seq2\<close>
        unfolding s'e c' by simp
    next
      case False
      have c': "column' = column[j := v]" using False by (simp add: column'_def)
      have s': "s' = (if v > mlen then (v, [(i, j)])
                      else if v = mlen then (mlen, stack @ [(i, j)]) else (mlen, stack))"
      proof -
        have "v = int (run seq1 seq2 i j)" using runij False by simp
        moreover have "run seq1 seq2 i j \<noteq> 0"
          using run_first_row [of seq1 j seq2] run_first_column [of i seq1 seq2]
            il \<open>j < length seq2\<close> ceq False
          by (cases i; cases j) (auto simp: run_Suc_Suc)
        ultimately show ?thesis by (simp add: s'_def scan_step_def)
      qed
      consider (gt) "v > mlen" | (eq) "\<not> v > mlen" "v = mlen" | (lt) "\<not> v > mlen" "v \<noteq> mlen"
        by blast
      then show ?thesis
      proof cases
        case gt
        show ?thesis
          using "1.IH"(1) [OF \<open>j < length seq2\<close> refl c_def cn False v_def c' gt]
            len' below above old "1.prems"(6,7) \<open>j < length seq2\<close> gt
          unfolding s' by simp
      next
        case eq
        show ?thesis
          using "1.IH"(2) [OF \<open>j < length seq2\<close> refl c_def cn False v_def c' eq]
            len' below above old "1.prems"(6,7) \<open>j < length seq2\<close> eq
          unfolding s' by simp
      next
        case lt
        show ?thesis
          using "1.IH"(3) [OF \<open>j < length seq2\<close> refl c_def cn False v_def c' lt]
            len' below above old "1.prems"(6,7) \<open>j < length seq2\<close> lt
          unfolding s' by simp
      qed
    qed
    then show ?thesis
      unfolding step up by (simp add: s'_def column'_def)
  qed
qed

lemma lcs_rows_scan:
  assumes "faithful cmp"
  shows "i \<le> length seq1 \<Longrightarrow> length seq2 \<le> length column
    \<Longrightarrow> (0 < i \<longrightarrow> (\<forall>k<length seq2. column ! k = int (run seq1 seq2 (i - 1) k)))
    \<Longrightarrow> lcs_rows cmp seq1 seq2 i lst mlen stack column =
          Some (foldl (scan_step seq1 seq2) (mlen, stack)
                  (concat (map (\<lambda>r. map (Pair r) [0..<length seq2]) [i..<length seq1])))"
  using assms
proof (induction cmp seq1 seq2 i lst mlen stack column rule: lcs_rows.induct)
  case (1 cmp seq1 seq2 i lst mlen stack column)
  show ?case
  proof (cases "i < length seq1")
    case False
    then show ?thesis using "1.prems" by (subst lcs_rows.simps) simp
  next
    case True
    define s' where "s' = foldl (scan_step seq1 seq2) (mlen, stack) (map (Pair i) [0..<length seq2])"
    obtain lst' column' where
      row: "lcs_row cmp seq1 seq2 i 0 lst mlen stack column = Some (lst', fst s', snd s', column')"
      and len': "length column' = length column"
      and nth': "\<forall>k<length seq2. column' ! k = int (run seq1 seq2 i k)"
      using lcs_row_scan [OF "1.prems"(4) True, of 0 seq2 column lst mlen stack] "1.prems"(2,3)
      unfolding s'_def by auto
    have up: "[i..<length seq1] = i # [i + 1..<length seq1]"
      using True by (simp add: upt_conv_Cons)
    have "lcs_rows cmp seq1 seq2 (i + 1) lst' (fst s') (snd s') column' =
        Some (foldl (scan_step seq1 seq2) (fst s', snd s')
                (concat (map (\<lambda>r. map (Pair r) [0..<length seq2]) [i + 1..<length seq1])))"
      using "1.IH" [OF True row refl refl refl] True len' nth' "1.prems"(2,4) by simp
    then show ?thesis
      using True row unfolding up
      by (subst lcs_rows.simps) (simp add: s'_def)
  qed
qed

lemma cells_rows:
  "cells xs ys = concat (map (\<lambda>r. map (Pair r) [0..<length ys]) [0..<length xs])"
  by (simp add: cells_def product_concat_map)

lemma scan_good_step:
  assumes "scan_good xs ys P s"
  shows "scan_good xs ys (P @ [p]) (scan_step xs ys s p)"
proof -
  let ?r = "run_at xs ys"
  let ?M = "Max (?r ` set P)"
  let ?M' = "Max (?r ` set (P @ [p]))"
  have M': "?M' = (if P = [] then ?r p else max (?r p) ?M)"
    by (cases "P = []") simp_all
  show ?thesis
  proof (cases "\<forall>q\<in>set P. ?r q = 0")
    case True
    then have s: "s = (-1, [])" using assms by (simp add: scan_good_def)
    have Mz: "P \<noteq> [] \<Longrightarrow> ?M = 0"
    proof -
      assume "P \<noteq> []"
      then have "?r ` set P = {0}" using True by (cases P) auto
      then show "?M = 0" by simp
    qed
    show ?thesis
    proof (cases "?r p = 0")
      case z: True
      then show ?thesis using True s by (simp add: scan_good_def scan_step_def run_at_def)
    next
      case nz: False
      have m: "?M' = ?r p" using M' Mz by (cases "P = []") simp_all
      have "filter (\<lambda>q. ?r q = ?r p) P = []" using True nz by (simp add: filter_empty_conv)
      then show ?thesis
        using nz s m unfolding scan_good_def
        by (simp add: scan_step_def run_at_def [symmetric] Let_def)
    qed
  next
    case False
    then have ne: "P \<noteq> []" by auto
    have s: "fst s = int ?M" "snd s = filter (\<lambda>q. ?r q = ?M) P"
      using assms False by (simp_all add: scan_good_def)
    obtain q where q: "q \<in> set P" "?r q \<noteq> 0" using False by blast
    have "?r q \<le> ?M" using q(1) by simp
    then have Mpos: "0 < ?M" using q(2) by linarith
    have le: "\<forall>q\<in>set P. ?r q \<le> ?M" by simp
    have nall: "\<not> (\<forall>q\<in>set (P @ [p]). ?r q = 0)" using q by auto
    have m: "?M' = max (?r p) ?M" using M' ne by simp
    consider (gt) "?r p > ?M" | (eq) "?r p = ?M" | (lt) "?r p < ?M" by linarith
    then show ?thesis
    proof cases
      case gt
      have "\<forall>q\<in>set P. ?r q \<noteq> ?r p"
      proof
        fix q assume "q \<in> set P"
        then have "?r q \<le> ?M" by simp
        then show "?r q \<noteq> ?r p" using gt by linarith
      qed
      then have "filter (\<lambda>q. ?r q = ?r p) P = []"
        by (simp add: filter_empty_conv)
      then show ?thesis
        using gt s m nall Mpos unfolding scan_good_def
        by (simp add: scan_step_def run_at_def [symmetric] Let_def max_def)
    next
      case eq
      then show ?thesis
        using s m nall Mpos unfolding scan_good_def
        by (cases s) (simp add: scan_step_def run_at_def [symmetric] Let_def)
    next
      case lt
      then show ?thesis
        using s m nall Mpos unfolding scan_good_def
        by (cases s) (auto simp add: scan_step_def run_at_def [symmetric] Let_def max_def)
    qed
  qed
qed

lemma scan_good_foldl:
  "scan_good xs ys P s \<Longrightarrow> scan_good xs ys (P @ Q) (foldl (scan_step xs ys) s Q)"
proof (induction Q arbitrary: P s)
  case Nil
  then show ?case by simp
next
  case (Cons q Q)
  have "scan_good xs ys ((P @ [q]) @ Q) (foldl (scan_step xs ys) (scan_step xs ys s q) Q)"
    using Cons.IH [OF scan_good_step [OF Cons.prems, of q]] .
  then show ?case by simp
qed

lemma scan_cells:
  "scan_good xs ys (cells xs ys) (foldl (scan_step xs ys) (-1, []) (cells xs ys))"
  using scan_good_foldl [of xs ys "[]" "(-1, [])" "cells xs ys"]
  by (simp add: scan_good_def)

lemma lcsubstrings_scan:
  assumes "faithful cmp" "alloc 0" "seq2 \<noteq> []"
  shows "lcsubstrings cmp alloc seq1 seq2 =
           Some (snd (foldl (scan_step seq1 seq2) (-1, []) (cells seq1 seq2)),
                 fst (foldl (scan_step seq1 seq2) (-1, []) (cells seq1 seq2)))"
proof -
  have "lcs_rows cmp seq1 seq2 0 0 (-1) [] (map int [0..<length seq2] @ [0]) =
      Some (foldl (scan_step seq1 seq2) (-1, []) (cells seq1 seq2))"
    using lcs_rows_scan [OF assms(1), of 0 seq1 seq2 "map int [0..<length seq2] @ [0]" 0 "-1" "[]"]
    by (simp add: cells_rows)
  then show ?thesis
    using assms(2,3) by (simp add: lcsubstrings_def split: prod.splits)
qed

lemma run_pos:
  assumes "i < length xs" "j < length ys" "xs ! i = ys ! j"
  shows "0 < run xs ys i j"
  using assms run_first_row [of xs j ys] run_first_column [of i xs ys]
  by (cases i; cases j) (auto simp: run_Suc_Suc)

lemma max_run_Max:
  assumes "cells xs ys \<noteq> []"
  shows "max_run xs ys = Max (run_at xs ys ` set (cells xs ys))"
proof -
  have eq: "(\<lambda>(i, j). run xs ys i j) = run_at xs ys"
    by (auto simp: run_at_def fun_eq_iff)
  have ne: "run_at xs ys ` set (cells xs ys) \<noteq> {}" using assms by simp
  have "Max (insert 0 (run_at xs ys ` set (cells xs ys))) = max 0 (Max (run_at xs ys ` set (cells xs ys)))"
    using ne by (subst Max_insert) auto
  then show ?thesis by (simp add: max_run_def eq)
qed

text \<open>
  Claim C4.  For sequences with at least one common element (a faithful comparison, a
  successful allocation) the stack returned by
  \<open>lcsubstrings\<close> holds exactly the end positions whose run attains the maximum, each once
  and in the order of the scan, and the length returned is that maximum; it is the result
  of resetting on every strictly longer run and appending on every tie.
\<close>

theorem lcs_tie_enumeration:
  assumes "faithful cmp" "alloc 0"
    and "\<exists>i<length seq1. \<exists>j<length seq2. seq1 ! i = seq2 ! j"
  shows "lcsubstrings cmp alloc seq1 seq2 =
           Some (filter (\<lambda>(i, j). run seq1 seq2 i j = max_run seq1 seq2) (cells seq1 seq2),
                 int (max_run seq1 seq2))
       \<and> lcsubstrings cmp alloc seq1 seq2 =
           Some (snd (foldl (scan_step seq1 seq2) (-1, []) (cells seq1 seq2)),
                 fst (foldl (scan_step seq1 seq2) (-1, []) (cells seq1 seq2)))
       \<and> 0 < max_run seq1 seq2"
proof -
  obtain i j where ij: "i < length seq1" "j < length seq2" "seq1 ! i = seq2 ! j"
    using assms(3) by blast
  have ne: "seq2 \<noteq> []" using ij(2) by auto
  have mem: "(i, j) \<in> set (cells seq1 seq2)" using ij by (simp add: cells_def)
  then have cne: "cells seq1 seq2 \<noteq> []" by auto
  have rp: "run_at seq1 seq2 (i, j) \<noteq> 0" using run_pos [OF ij] by (simp add: run_at_def)
  then have nz: "\<not> (\<forall>p\<in>set (cells seq1 seq2). run_at seq1 seq2 p = 0)" using mem by force
  let ?s = "foldl (scan_step seq1 seq2) (-1, []) (cells seq1 seq2)"
  have eq: "(\<lambda>(i, j). run seq1 seq2 i j = max_run seq1 seq2) =
      (\<lambda>p. run_at seq1 seq2 p = max_run seq1 seq2)"
    by (auto simp: run_at_def fun_eq_iff)
  have "fst ?s = int (max_run seq1 seq2)"
    and "snd ?s = filter (\<lambda>(i, j). run seq1 seq2 i j = max_run seq1 seq2) (cells seq1 seq2)"
    using scan_cells [of seq1 seq2] nz max_run_Max [OF cne] unfolding eq
    by (simp_all add: scan_good_def)
  moreover have "run_at seq1 seq2 (i, j) \<le> max_run seq1 seq2"
    using mem unfolding max_run_Max [OF cne] by simp
  ultimately show ?thesis
    using lcsubstrings_scan [of cmp alloc seq2 seq1] assms(1,2) ne rp by simp
qed

theorem lcs_tie_enumeration_witness:
  "faithful (native_comp :: char comparator)
   \<and> lcsubstrings native_comp (\<lambda>n. True) ''abab'' ''ab'' = Some ([(1, 1), (3, 1)], 2)"
proof -
  have ex: "\<exists>i<length ''abab''. \<exists>j<length ''ab''. ''abab'' ! i = ''ab'' ! j"
    by (rule exI [of _ 0]) (simp, rule exI [of _ 0], simp)
  have ev: "lcsubstrings native_comp (\<lambda>n. True) ''abab'' ''ab'' = Some ([(1, 1), (3, 1)], 2)"
    by (simp add: lcsubstrings_def lcs_rows.simps lcs_row.simps native_comp_def)
  show ?thesis
    using lcs_tie_enumeration [of native_comp "\<lambda>n. True" "''abab''" "''ab''"] ex
      faithful_native [where ?'a = char] ev
    by simp
qed

text \<open>
  What a run is: the elements counted by \<open>run\<close> form equal slices of the two sequences,
  and every common substring is counted by the run that ends where it ends, so none is
  longer than \<open>max_run\<close>.
\<close>

lemma run_le: "run xs ys i j \<le> min (length (take (Suc i) xs)) (length (take (Suc j) ys))"
proof -
  have "run xs ys i j \<le> length (zip (rev (take (Suc i) xs)) (rev (take (Suc j) ys)))"
    unfolding run_def by (rule length_takeWhile_le)
  then show ?thesis by simp
qed

lemma run_slices:
  assumes "i < length xs" "j < length ys"
  shows "take (run xs ys i j) (drop (Suc i - run xs ys i j) xs) =
         take (run xs ys i j) (drop (Suc j - run xs ys i j) ys)"
    and "run xs ys i j \<le> Suc i" and "run xs ys i j \<le> Suc j"
proof -
  let ?px = "take (Suc i) xs" and ?py = "take (Suc j) ys"
  let ?zs = "zip (rev ?px) (rev ?py)"
  let ?M = "run xs ys i j"
  have lpx: "length ?px = Suc i" and lpy: "length ?py = Suc j" using assms by simp_all
  show Mi: "?M \<le> Suc i" and Mj: "?M \<le> Suc j" using run_le [of xs ys i j] lpx lpy by simp_all
  have tw: "takeWhile (\<lambda>(x, y). x = y) ?zs = take ?M ?zs"
    unfolding run_def by (rule takeWhile_eq_take)
  have "\<forall>p\<in>set (take ?M ?zs). fst p = snd p"
    using set_takeWhileD [of _ "\<lambda>(x, y). x = y" ?zs] unfolding tw by auto
  then have all: "\<forall>p\<in>set (zip (take ?M (rev ?px)) (take ?M (rev ?py))). fst p = snd p"
    by (simp add: take_zip)
  have len: "length (take ?M (rev ?px)) = length (take ?M (rev ?py))"
    using Mi Mj lpx lpy by simp
  have "take ?M (rev ?px) = take ?M (rev ?py)"
    using len all by (auto simp: list_eq_iff_zip_eq)
  then have "rev (drop (Suc i - ?M) ?px) = rev (drop (Suc j - ?M) ?py)"
    using lpx lpy by (simp add: take_rev)
  then have "drop (Suc i - ?M) ?px = drop (Suc j - ?M) ?py" by simp
  then show "take ?M (drop (Suc i - ?M) xs) = take ?M (drop (Suc j - ?M) ys)"
    using Mi Mj by (simp add: drop_take)
qed

lemma run_ge_common:
  assumes "a + n \<le> length xs" "b + n \<le> length ys" "0 < n"
    and "take n (drop a xs) = take n (drop b ys)"
  shows "n \<le> run xs ys (a + n - 1) (b + n - 1)"
proof -
  let ?i = "a + n - 1" and ?j = "b + n - 1"
  let ?px = "take (Suc ?i) xs" and ?py = "take (Suc ?j) ys"
  let ?zs = "zip (rev ?px) (rev ?py)"
  have lpx: "length ?px = a + n" and lpy: "length ?py = b + n" using assms by simp_all
  have nz: "n \<le> length ?zs" using lpx lpy by simp
  have "\<And>k. k < n \<Longrightarrow> (\<lambda>(x, y). x = y) (?zs ! k)"
  proof -
    fix k assume k: "k < n"
    have kx: "k < length ?px" and ky: "k < length ?py" using k lpx lpy by simp_all
    have x: "rev ?px ! k = xs ! (a + (n - 1 - k))"
      using k assms(1,3) lpx by (simp add: rev_nth)
    have y: "rev ?py ! k = ys ! (b + (n - 1 - k))"
      using k assms(2,3) lpy by (simp add: rev_nth)
    have "take n (drop a xs) ! (n - 1 - k) = take n (drop b ys) ! (n - 1 - k)"
      using assms(4) by simp
    then have "xs ! (a + (n - 1 - k)) = ys ! (b + (n - 1 - k))"
      using k assms(1,2) by simp
    then show "(\<lambda>(x, y). x = y) (?zs ! k)"
      using x y kx ky by simp
  qed
  then show ?thesis
    unfolding run_def using nz by (rule length_takeWhile_less_P_nth)
qed

lemma common_substring_le_max_run:
  assumes "a + n \<le> length xs" "b + n \<le> length ys"
    and "take n (drop a xs) = take n (drop b ys)"
  shows "n \<le> max_run xs ys"
proof (cases "n = 0")
  case True
  then show ?thesis by simp
next
  case False
  then have n: "0 < n" by simp
  have mem: "(a + n - 1, b + n - 1) \<in> set (cells xs ys)"
    using assms(1,2) n by (auto simp: cells_def)
  have "run xs ys (a + n - 1) (b + n - 1) \<le> max_run xs ys"
    unfolding max_run_def using mem by (intro Max_ge) (auto simp: image_iff intro!: bexI [OF _ mem])
  then show ?thesis using run_ge_common [OF assms(1,2) n assms(3)] by linarith
qed

section \<open>The bounded fast comparator\<close>

text \<open>The comparator never answers outside \<open>-1, 0, 1, 2\<close> when no comparison fails.\<close>

lemma fc_walk_total:
  "faithful cmp \<Longrightarrow> 0 \<le> c \<Longrightarrow>
   \<exists>i' j' c'. fc_walk cmp seq1 seq2 tr ldiff model i j c = Some (i', j', c') \<and> 0 \<le> c'"
proof (induction cmp seq1 seq2 tr ldiff model i j c rule: fc_walk.induct)
  case (1 cmp seq1 seq2 tr ldiff model i j c)
  have nf: "\<And>x y. cmp x y \<noteq> -1" using "1.prems"(1) by (simp add: faithful_def)
  show ?case
    using "1.IH" "1.prems" nf
    by (subst fc_walk.simps) (auto simp: Let_def)
qed


lemma fc_finish_nonneg:
  "0 \<le> c \<Longrightarrow> fc_finish model len1 len2 i j c = Some c' \<Longrightarrow> 0 \<le> c'"
  by (auto simp: fc_finish_def Let_def split: if_splits)

lemma fc_models_range:
  "faithful cmp \<Longrightarrow> 0 \<le> res \<Longrightarrow> res \<le> 3 \<Longrightarrow>
   fc_models cmp seq1 seq2 tr ldiff models m res \<in> {-1, 0, 1, 2}"
proof (induction cmp seq1 seq2 tr ldiff models m res rule: fc_models.induct)
  case (1 cmp seq1 seq2 tr ldiff models m res)
  show ?case
  proof (cases "m \<ge> 0")
    case False
    then show ?thesis using "1.prems" by (subst fc_models.simps) auto
  next
    case True
    obtain i j c where w: "fc_walk cmp seq1 seq2 tr ldiff (models ! nat m) 0 0 0 = Some (i, j, c)"
      and c: "0 \<le> c"
      using fc_walk_total [OF "1.prems"(1), of 0 seq1 seq2 tr ldiff "models ! nat m" 0 0] by auto
    show ?thesis
    proof (cases "fc_finish (models ! nat m) (length seq1) (length seq2) i j c")
      case None
      then show ?thesis
        using True w "1.IH"(1) [OF True w refl refl None] "1.prems"
        by (subst fc_models.simps) simp
    next
      case (Some c')
      have "0 \<le> c'" using fc_finish_nonneg [OF c Some] .
      then show ?thesis
        using True w Some "1.IH"(2) [OF True w refl refl Some] "1.prems"
        by (subst fc_models.simps) simp
    qed
  qed
qed

lemma fastcomp_range:
  "faithful cmp \<Longrightarrow> fastcomp cmp s1 s2 tr \<in> {-1, 0, 1, 2}"
  using fc_models_range [of cmp 3]
  by (simp add: fastcomp_def Let_def split: prod.splits)

text \<open>Unfolding the walk without transpositions.\<close>

lemma fc_walk_stop:
  assumes "\<not> (i < length seq1 \<and> j < length seq2)"
  shows "fc_walk cmp seq1 seq2 tr ldiff model i j c = Some (i, j, c)"
  by (subst fc_walk.simps) (simp only: assms if_False)

lemma fc_walk_match:
  assumes "faithful cmp" "i < length seq1" "j < length seq2" "seq1 ! i = seq2 ! j"
  shows "fc_walk cmp seq1 seq2 tr ldiff model i j c =
         fc_walk cmp seq1 seq2 tr ldiff model (i + 1) (j + 1) c"
proof -
  have "cmp (seq1 ! i) (seq2 ! j) \<noteq> -1" "cmp (seq1 ! i) (seq2 ! j) \<noteq> 0"
    using assms(1,4) by (auto simp: faithful_def)
  then show ?thesis using assms(2,3)
    by (subst fc_walk.simps) (simp add: Let_def)
qed

lemma fc_walk_third:
  assumes "faithful cmp" "i < length seq1" "j < length seq2" "seq1 ! i \<noteq> seq2 ! j" "c + 1 > 2"
  shows "fc_walk cmp seq1 seq2 tr ldiff model i j c = Some (i, j, c + 1)"
proof -
  have "cmp (seq1 ! i) (seq2 ! j) = 0"
    using assms(1,4) by (auto simp: faithful_def)
  then show ?thesis using assms(2,3,5)
    by (subst fc_walk.simps) (simp add: Let_def)
qed

lemma fc_walk_mismatch:
  assumes "faithful cmp" "i < length seq1" "j < length seq2" "seq1 ! i \<noteq> seq2 ! j" "c + 1 \<le> 2"
  shows "fc_walk cmp seq1 seq2 False ldiff model i j c =
         fc_walk cmp seq1 seq2 False ldiff model
           (fst (fc_step model (c + 1) i j)) (snd (fc_step model (c + 1) i j)) (c + 1)"
proof -
  have "cmp (seq1 ! i) (seq2 ! j) = 0"
    using assms(1,4) by (auto simp: faithful_def)
  then show ?thesis using assms(2,3,5)
    by (subst fc_walk.simps) (simp add: Let_def)
qed

lemma drop_nth_Cons: "i < length xs \<Longrightarrow> drop i xs = xs ! i # drop (i + 1) xs"
  by (simp add: Cons_nth_drop_Suc)

text \<open>Soundness: what a model reports is the cost of an alignment.\<close>

lemma fc_walk_sound:
  assumes "faithful cmp"
  shows "fc_walk cmp seq1 seq2 False ldiff model i j c = Some (i', j', c') \<Longrightarrow> c' \<le> 2
    \<Longrightarrow> i \<le> length seq1 \<Longrightarrow> j \<le> length seq2 \<Longrightarrow> 0 \<le> c
    \<Longrightarrow> int (edit_distance (drop i seq1) (drop j seq2))
          \<le> (c' - c) + int (edit_distance (drop i' seq1) (drop j' seq2))
        \<and> i' \<le> length seq1 \<and> j' \<le> length seq2 \<and> (i' = length seq1 \<or> j' = length seq2)"
  using assms
proof (induction cmp seq1 seq2 "False" ldiff model i j c rule: fc_walk.induct)
  case (1 cmp seq1 seq2 ldiff model i j c)
  show ?case
  proof (cases "i < length seq1 \<and> j < length seq2")
    case False
    then have "i' = i" "j' = j" "c' = c"
      using "1.prems"(1) fc_walk_stop [of i seq1 j seq2 cmp False ldiff model c] by auto
    then show ?thesis using False "1.prems" by auto
  next
    case True
    then have il: "i < length seq1" and jl: "j < length seq2" by auto
    have di: "drop i seq1 = seq1 ! i # drop (i + 1) seq1" using il by (rule drop_nth_Cons)
    have dj: "drop j seq2 = seq2 ! j # drop (j + 1) seq2" using jl by (rule drop_nth_Cons)
    show ?thesis
    proof (cases "seq1 ! i = seq2 ! j")
      case eq: True
      have cm: "cmp (seq1 ! i) (seq2 ! j) \<noteq> -1" "cmp (seq1 ! i) (seq2 ! j) \<noteq> 0"
        using "1.prems"(6) eq by (auto simp: faithful_def)
      have w: "fc_walk cmp seq1 seq2 False ldiff model (i + 1) (j + 1) c = Some (i', j', c')"
        using "1.prems"(1) fc_walk_match [OF "1.prems"(6) il jl eq] by simp
      have "int (edit_distance (drop (i + 1) seq1) (drop (j + 1) seq2))
          \<le> (c' - c) + int (edit_distance (drop i' seq1) (drop j' seq2))
        \<and> i' \<le> length seq1 \<and> j' \<le> length seq2 \<and> (i' = length seq1 \<or> j' = length seq2)"
        using "1.hyps"(5) [OF True refl cm(1) cm(2) w "1.prems"(2)] il jl "1.prems"(5,6) by simp
      moreover have "edit_distance (drop i seq1) (drop j seq2) =
          edit_distance (drop (i + 1) seq1) (drop (j + 1) seq2)"
        by (subst di, subst dj) (simp only: eq edit_distance_Cons_same_eq)
      ultimately show ?thesis by simp
    next
      case ne: False
      have cm: "cmp (seq1 ! i) (seq2 ! j) \<noteq> -1" "cmp (seq1 ! i) (seq2 ! j) = 0"
        using "1.prems"(6) ne by (auto simp: faithful_def)
      have c2: "c + 1 \<le> 2"
      proof (rule ccontr)
        assume "\<not> c + 1 \<le> 2"
        then have "fc_walk cmp seq1 seq2 False ldiff model i j c = Some (i, j, c + 1)"
          using fc_walk_third [OF "1.prems"(6) il jl ne] by simp
        then show False using "1.prems"(1,2) \<open>\<not> c + 1 \<le> 2\<close> by simp
      qed
      define i2 where "i2 = fst (fc_step model (c + 1) i j)"
      define j2 where "j2 = snd (fc_step model (c + 1) i j)"
      have w: "fc_walk cmp seq1 seq2 False ldiff model i2 j2 (c + 1) = Some (i', j', c')"
        using "1.prems"(1) fc_walk_mismatch [OF "1.prems"(6) il jl ne c2] by (simp add: i2_def j2_def)
      have st: "(i2 = i + 1 \<and> j2 = j) \<or> (i2 = i \<and> j2 = j + 1) \<or> (i2 = i + 1 \<and> j2 = j + 1)"
        by (auto simp: i2_def j2_def fc_step_def)
      have bnd: "i2 \<le> length seq1" "j2 \<le> length seq2" using st il jl by auto
      have nt: "\<not> (False \<and> ldiff \<noteq> 2 \<and> int i < int (length seq1) - 1 \<and> int j < int (length seq2) - 1)"
        by simp
      have c2': "\<not> c + 1 > 2" using c2 by simp
      have IH: "int (edit_distance (drop i2 seq1) (drop j2 seq2))
          \<le> (c' - (c + 1)) + int (edit_distance (drop i' seq1) (drop j' seq2))
        \<and> i' \<le> length seq1 \<and> j' \<le> length seq2 \<and> (i' = length seq1 \<or> j' = length seq2)"
        using "1.hyps"(4) [OF True refl cm(1) cm(2) refl c2' nt w [unfolded i2_def j2_def]
            "1.prems"(2)] bnd "1.prems"(5,6)
        by (simp add: i2_def j2_def)
      have "int (edit_distance (drop i seq1) (drop j seq2))
          \<le> 1 + int (edit_distance (drop i2 seq1) (drop j2 seq2))"
        using st
      proof (elim disjE conjE)
        assume "i2 = i + 1" "j2 = j"
        then show ?thesis
          using edit_distance_Cons1 [of "seq1 ! i" "drop (i + 1) seq1" "drop j seq2"] di by simp
      next
        assume "i2 = i" "j2 = j + 1"
        then show ?thesis
          using edit_distance_Cons2 [of "drop i seq1" "seq2 ! j" "drop (j + 1) seq2"] dj by simp
      next
        assume "i2 = i + 1" "j2 = j + 1"
        then show ?thesis
          using edit_distance_Cons_Cons [of "seq1 ! i" "drop (i + 1) seq1" "seq2 ! j" "drop (j + 1) seq2"]
            di dj by simp
      qed
      then show ?thesis using IH by linarith
    qed
  qed
qed


lemma fc_finish_sound:
  assumes "fc_finish model (length seq1) (length seq2) i j c = Some r"
    and "i \<le> length seq1" "j \<le> length seq2" "i = length seq1 \<or> j = length seq2"
  shows "r = c + int (edit_distance (drop i seq1) (drop j seq2))" and "c \<le> 2"
proof -
  show "c \<le> 2" using assms(1) by (auto simp: fc_finish_def split: if_splits)
  consider (a) "i < length seq1" "j = length seq2" | (b) "i = length seq1" "j < length seq2"
    | (c) "i = length seq1" "j = length seq2"
    using assms(2,3,4) by linarith
  then show "r = c + int (edit_distance (drop i seq1) (drop j seq2))"
  proof cases
    case a
    then show ?thesis using assms(1)
      by (auto simp: fc_finish_def Let_def split: if_splits)
  next
    case b
    then show ?thesis using assms(1)
      by (auto simp: fc_finish_def Let_def split: if_splits)
  next
    case c
    then show ?thesis using assms(1)
      by (auto simp: fc_finish_def Let_def split: if_splits)
  qed
qed

lemma model_result_sound:
  assumes "faithful cmp" "model_result cmp seq1 seq2 False ldiff model = Some r"
  shows "int (edit_distance seq1 seq2) \<le> r"
proof -
  obtain i j c where w: "fc_walk cmp seq1 seq2 False ldiff model 0 0 0 = Some (i, j, c)"
    and f: "fc_finish model (length seq1) (length seq2) i j c = Some r"
    using assms(2) by (auto simp: model_result_def split: option.splits)
  have c2: "c \<le> 2" using f by (auto simp: fc_finish_def split: if_splits)
  have s: "int (edit_distance (drop 0 seq1) (drop 0 seq2))
          \<le> (c - 0) + int (edit_distance (drop i seq1) (drop j seq2))
        \<and> i \<le> length seq1 \<and> j \<le> length seq2 \<and> (i = length seq1 \<or> j = length seq2)"
    using fc_walk_sound [OF assms(1) w c2] by simp
  then have "r = c + int (edit_distance (drop i seq1) (drop j seq2))"
    using fc_finish_sound(1) [OF f] by blast
  then show ?thesis using s by simp
qed

text \<open>Completeness: a distance of at most 2 is found by one of the models.\<close>

lemma fc_walk_equal:
  assumes "faithful cmp"
  shows "i \<le> length seq1 \<Longrightarrow> j \<le> length seq2 \<Longrightarrow> drop i seq1 = drop j seq2
    \<Longrightarrow> fc_walk cmp seq1 seq2 tr ldiff model i j c = Some (length seq1, length seq2, c)"
proof (induction "length seq1 - i" arbitrary: i j)
  case 0
  then have i: "i = length seq1" by simp
  then have "drop j seq2 = []" using "0.prems" by simp
  then have j: "j = length seq2" using "0.prems" by simp
  show ?case using fc_walk_stop [of i seq1 j seq2 cmp tr ldiff model c] i j by simp
next
  case (Suc n)
  then have il: "i < length seq1" by simp
  then have "drop j seq2 \<noteq> []" using Suc.prems by auto
  then have jl: "j < length seq2" by simp
  have di: "drop i seq1 = seq1 ! i # drop (i + 1) seq1" using il by (rule drop_nth_Cons)
  have dj: "drop j seq2 = seq2 ! j # drop (j + 1) seq2" using jl by (rule drop_nth_Cons)
  have eq: "seq1 ! i = seq2 ! j" "drop (i + 1) seq1 = drop (j + 1) seq2"
    using Suc.prems(3) di dj by simp_all
  have "fc_walk cmp seq1 seq2 tr ldiff model (i + 1) (j + 1) c = Some (length seq1, length seq2, c)"
    using Suc.hyps(1) [of "i + 1" "j + 1"] Suc.hyps(2) il jl eq(2) by simp
  then show ?case using fc_walk_match [OF assms il jl eq(1)] by simp
qed

lemma fc_finish_end: "c \<le> 2 \<Longrightarrow> fc_finish model len1 len2 len1 len2 c = Some c"
  by (simp add: fc_finish_def)

lemma fc_walk_one_left:
  assumes "faithful cmp"
  shows "i \<le> length seq1 \<Longrightarrow> j \<le> length seq2
    \<Longrightarrow> edit_distance (drop i seq1) (drop j seq2) \<le> 1
    \<Longrightarrow> (edit_distance (drop i seq1) (drop j seq2) = 1 \<longrightarrow>
          int (length seq1 - i) - int (length seq2 - j) = op_net (model ! 1))
    \<Longrightarrow> \<exists>i' j' c'. fc_walk cmp seq1 seq2 False ldiff model i j 1 = Some (i', j', c')
          \<and> fc_finish model (length seq1) (length seq2) i' j' c' =
              Some (1 + int (edit_distance (drop i seq1) (drop j seq2)))"
proof (induction "length seq1 - i" arbitrary: i j rule: less_induct)
  case less
  let ?X = "drop i seq1" and ?Y = "drop j seq2"
  show ?case
  proof (cases "i < length seq1 \<and> j < length seq2")
    case False
    have w: "fc_walk cmp seq1 seq2 False ldiff model i j 1 = Some (i, j, 1)"
      using fc_walk_stop [OF False] .
    consider (a) "i < length seq1" "j = length seq2" | (b) "i = length seq1" "j < length seq2"
      | (c) "i = length seq1" "j = length seq2"
      using False less.prems(1,2) by linarith
    then have "fc_finish model (length seq1) (length seq2) i j 1 = Some (1 + int (edit_distance ?X ?Y))"
    proof cases
      case a
      then have e: "edit_distance ?X ?Y = length seq1 - i" by simp
      then have e1: "edit_distance ?X ?Y = 1" using less.prems(3) a by linarith
      then have "op_net (model ! 1) = 1" using less.prems(4) e a by simp
      then have "model ! 1 = CHR ''d''" by (simp add: op_net_def split: if_splits)
      then show ?thesis using a e e1
        by (simp add: fc_finish_def bool_int_def)
    next
      case b
      then have e: "edit_distance ?X ?Y = length seq2 - j" by simp
      then have e1: "edit_distance ?X ?Y = 1" using less.prems(3) b by linarith
      then have "op_net (model ! 1) = -1" using less.prems(4) e b by simp
      then have "model ! 1 = CHR ''i''" by (simp add: op_net_def split: if_splits)
      then show ?thesis using b e e1
        by (simp add: fc_finish_def bool_int_def)
    next
      case c
      then show ?thesis by (simp add: fc_finish_def)
    qed
    then show ?thesis using w by simp
  next
    case True
    then have il: "i < length seq1" and jl: "j < length seq2" by auto
    have di: "?X = seq1 ! i # drop (i + 1) seq1" using il by (rule drop_nth_Cons)
    have dj: "?Y = seq2 ! j # drop (j + 1) seq2" using jl by (rule drop_nth_Cons)
    let ?X' = "drop (i + 1) seq1" and ?Y' = "drop (j + 1) seq2"
    show ?thesis
    proof (cases "seq1 ! i = seq2 ! j")
      case eq: True
      have ed: "edit_distance ?X ?Y = edit_distance ?X' ?Y'"
        by (subst di, subst dj) (simp only: eq edit_distance_Cons_same_eq)
      have len: "int (length seq1 - (i + 1)) - int (length seq2 - (j + 1)) =
          int (length seq1 - i) - int (length seq2 - j)"
        using il jl by linarith
      have p1: "length seq1 - (i + 1) < length seq1 - i" using il by simp
      have p2: "i + 1 \<le> length seq1" "j + 1 \<le> length seq2" using il jl by simp_all
      have p3: "edit_distance ?X' ?Y' \<le> 1" using less.prems(3) ed by simp
      have p4: "edit_distance ?X' ?Y' = 1 \<longrightarrow>
          int (length seq1 - (i + 1)) - int (length seq2 - (j + 1)) = op_net (model ! 1)"
        using less.prems(4) ed len by simp
      have "\<exists>i' j' c'. fc_walk cmp seq1 seq2 False ldiff model (i + 1) (j + 1) 1 = Some (i', j', c')
          \<and> fc_finish model (length seq1) (length seq2) i' j' c' =
              Some (1 + int (edit_distance ?X' ?Y'))"
        using less.hyps [OF p1 p2 p3 p4] .
      then show ?thesis
        using fc_walk_match [OF assms il jl eq] ed by simp
    next
      case ne: False
      have m: "edit_distance ?X ?Y =
          Suc (min (min (edit_distance ?X' ?Y) (edit_distance ?X ?Y')) (edit_distance ?X' ?Y'))"
        using edit_distance_mismatch [OF ne, of ?X' ?Y'] di dj by simp
      then have e1: "edit_distance ?X ?Y = 1" using less.prems(3) by linarith
      then have z: "edit_distance ?X' ?Y = 0 \<or> edit_distance ?X ?Y' = 0 \<or> edit_distance ?X' ?Y' = 0"
        using m by (auto simp: min_def split: if_splits)
      have net: "int (length seq1 - i) - int (length seq2 - j) = op_net (model ! 1)"
        using less.prems(4) e1 by simp
      have lX: "length ?X = length seq1 - i" "length ?X' = length seq1 - i - 1" by simp_all
      have lY: "length ?Y = length seq2 - j" "length ?Y' = length seq2 - j - 1" by simp_all
      define i2 where "i2 = fst (fc_step model 2 i j)"
      define j2 where "j2 = snd (fc_step model 2 i j)"
      have w: "fc_walk cmp seq1 seq2 False ldiff model i j 1 =
          fc_walk cmp seq1 seq2 False ldiff model i2 j2 2"
        using fc_walk_mismatch [OF assms il jl ne, of 1 ldiff model] by (simp add: i2_def j2_def)
      have "drop i2 seq1 = drop j2 seq2 \<and> i2 \<le> length seq1 \<and> j2 \<le> length seq2"
      proof (cases "model ! 1 = CHR ''d''")
        case True
        then have st: "i2 = i + 1" "j2 = j" by (simp_all add: i2_def j2_def fc_step_def)
        have n1: "int (length seq1 - i) - int (length seq2 - j) = 1"
          using net True by (simp add: op_net_def)
        have "edit_distance ?X ?Y' \<noteq> 0"
          using edit_distance_ge_diff1 [of ?X ?Y'] n1 il jl lX lY by simp
        moreover have "edit_distance ?X' ?Y' \<noteq> 0"
          using edit_distance_ge_diff1 [of ?X' ?Y'] n1 il jl lX lY by simp
        ultimately have "edit_distance ?X' ?Y = 0" using z by auto
        then have "?X' = ?Y" by (rule edit_distance_eq_0)
        then show ?thesis using st il jl by simp
      next
        case nd: False
        show ?thesis
        proof (cases "model ! 1 = CHR ''i''")
          case True
          then have st: "i2 = i" "j2 = j + 1" using nd by (simp_all add: i2_def j2_def fc_step_def)
          have n1: "int (length seq1 - i) - int (length seq2 - j) = -1"
            using net True nd by (simp add: op_net_def)
          have "edit_distance ?X' ?Y \<noteq> 0"
            using edit_distance_ge_diff2 [of ?Y ?X'] n1 il jl lX lY by simp
          moreover have "edit_distance ?X' ?Y' \<noteq> 0"
            using edit_distance_ge_diff2 [of ?Y' ?X'] n1 il jl lX lY by simp
          ultimately have "edit_distance ?X ?Y' = 0" using z by auto
          then have "?X = ?Y'" by (rule edit_distance_eq_0)
          then show ?thesis using st il jl by simp
        next
          case ni: False
          then have st: "i2 = i + 1" "j2 = j + 1" using nd by (simp_all add: i2_def j2_def fc_step_def)
          have n1: "int (length seq1 - i) - int (length seq2 - j) = 0"
            using net ni nd by (simp add: op_net_def)
          have "edit_distance ?X' ?Y \<noteq> 0"
            using edit_distance_ge_diff2 [of ?Y ?X'] n1 il jl lX lY by simp
          moreover have "edit_distance ?X ?Y' \<noteq> 0"
            using edit_distance_ge_diff1 [of ?X ?Y'] n1 il jl lX lY by simp
          ultimately have "edit_distance ?X' ?Y' = 0" using z by auto
          then have "?X' = ?Y'" by (rule edit_distance_eq_0)
          then show ?thesis using st il jl by simp
        qed
      qed
      then have "fc_walk cmp seq1 seq2 False ldiff model i2 j2 2 = Some (length seq1, length seq2, 2)"
        using fc_walk_equal [OF assms, of i2 seq1 j2 seq2 False ldiff model 2] by simp
      then show ?thesis using w e1 fc_finish_end [of 2 model "length seq1" "length seq2"] by simp
    qed
  qed
qed


lemma length_diff_le_edit_distance:
  "int (length xs) - int (length ys) \<le> int (edit_distance xs ys)
   \<and> int (length ys) - int (length xs) \<le> int (edit_distance xs ys)"
  using edit_distance_ge_diff1 [where xs = xs and ys = ys]
    edit_distance_ge_diff2 [where xs = xs and ys = ys] by linarith

lemma fc_first_mismatch:
  assumes "faithful cmp" "i < length seq1" "j < length seq2" "seq1 ! i \<noteq> seq2 ! j"
    and "fc_step model 1 i j = (i2, j2)"
    and "edit_distance (drop i2 seq1) (drop j2 seq2) \<le> 1"
    and "edit_distance (drop i2 seq1) (drop j2 seq2) = 1 \<longrightarrow>
          int (length seq1 - i2) - int (length seq2 - j2) = op_net (model ! 1)"
  shows "\<exists>i' j' c'. fc_walk cmp seq1 seq2 False ldiff model i j 0 = Some (i', j', c')
          \<and> fc_finish model (length seq1) (length seq2) i' j' c' =
              Some (1 + int (edit_distance (drop i2 seq1) (drop j2 seq2)))"
proof -
  have w: "fc_walk cmp seq1 seq2 False ldiff model i j 0 =
      fc_walk cmp seq1 seq2 False ldiff model i2 j2 1"
    using fc_walk_mismatch [OF assms(1-4), of 0 ldiff model] assms(5) by simp
  have "i2 \<le> i + 1" "j2 \<le> j + 1" using assms(5) by (auto simp: fc_step_def split: if_splits)
  then have b: "i2 \<le> length seq1" "j2 \<le> length seq2" using assms(2,3) by simp_all
  show ?thesis
    using fc_walk_one_left [OF assms(1) b assms(6,7), of ldiff] w by simp
qed

lemma fc_complete:
  assumes "faithful cmp" "length seq2 \<le> length seq1"
  shows "i \<le> length seq2 \<Longrightarrow> edit_distance (drop i seq1) (drop i seq2) \<le> 2
    \<Longrightarrow> \<exists>model\<in>set (catalogue (int (length seq1) - int (length seq2))). \<exists>i' j' c'.
          fc_walk cmp seq1 seq2 False ldiff model i i 0 = Some (i', j', c')
          \<and> fc_finish model (length seq1) (length seq2) i' j' c' =
              Some (int (edit_distance (drop i seq1) (drop i seq2)))"
proof (induction "length seq2 - i" arbitrary: i rule: less_induct)
  case less
  let ?X = "drop i seq1" and ?Y = "drop i seq2"
  let ?L = "int (length seq1) - int (length seq2)"
  have lX: "int (length ?X) = int (length seq1) - int i" using less.prems(1) assms(2) by simp
  have lY: "int (length ?Y) = int (length seq2) - int i" using less.prems(1) by simp
  have L0: "0 \<le> ?L" using assms(2) by simp
  have L2: "?L \<le> 2"
    using length_diff_le_edit_distance [of ?X ?Y] lX lY less.prems(2) by linarith
  show ?case
  proof (cases "i < length seq2")
    case False
    then have i: "i = length seq2" using less.prems(1) by simp
    then have e: "int (edit_distance ?X ?Y) = ?L" using assms(2) by simp
    have stop: "\<And>model. fc_walk cmp seq1 seq2 False ldiff model i i 0 = Some (i, i, 0)"
      using fc_walk_stop [of i seq1 i seq2] i by simp
    consider (z) "?L = 0" | (o) "?L = 1" | (t) "?L = 2" using L0 L2 by linarith
    then show ?thesis
    proof cases
      case z
      then have "fc_finish (''rr'' @ [NUL]) (length seq1) (length seq2) i i 0 = Some 0"
        using i by (simp add: fc_finish_def)
      then show ?thesis using stop e z by (auto simp: catalogue_def)
    next
      case o
      then have "fc_finish (''dr'' @ [NUL]) (length seq1) (length seq2) i i 0 = Some 1"
        using i by (simp add: fc_finish_def bool_int_def)
      then show ?thesis using stop e o by (auto simp: catalogue_def)
    next
      case t
      then have "fc_finish (''dd'' @ [NUL]) (length seq1) (length seq2) i i 0 = Some 2"
        using i by (simp add: fc_finish_def bool_int_def)
      then show ?thesis using stop e t by (auto simp: catalogue_def)
    qed
  next
    case jl: True
    then have il: "i < length seq1" using assms(2) by simp
    have di: "?X = seq1 ! i # drop (i + 1) seq1" using il by (rule drop_nth_Cons)
    have dj: "?Y = seq2 ! i # drop (i + 1) seq2" using jl by (rule drop_nth_Cons)
    let ?X' = "drop (i + 1) seq1" and ?Y' = "drop (i + 1) seq2"
    have lX': "int (length ?X') = int (length seq1) - int i - 1" using il by simp
    have lY': "int (length ?Y') = int (length seq2) - int i - 1" using jl by simp
    show ?thesis
    proof (cases "seq1 ! i = seq2 ! i")
      case eq: True
      have ed: "edit_distance ?X ?Y = edit_distance ?X' ?Y'"
        by (subst di, subst dj) (simp only: eq edit_distance_Cons_same_eq)
      have p1: "length seq2 - (i + 1) < length seq2 - i" using jl by simp
      have p2: "i + 1 \<le> length seq2" using jl by simp
      have p3: "edit_distance ?X' ?Y' \<le> 2" using less.prems(2) ed by simp
      obtain model i' j' c' where "model \<in> set (catalogue ?L)"
        "fc_walk cmp seq1 seq2 False ldiff model (i + 1) (i + 1) 0 = Some (i', j', c')"
        "fc_finish model (length seq1) (length seq2) i' j' c' = Some (int (edit_distance ?X' ?Y'))"
        using less.hyps [OF p1 p2 p3] by blast
      then show ?thesis
        using fc_walk_match [OF assms(1) il jl eq, of False ldiff model 0] ed by auto
    next
      case ne: False
      define a where "a = edit_distance ?X' ?Y"
      define b where "b = edit_distance ?X ?Y'"
      define c where "c = edit_distance ?X' ?Y'"
      have D: "edit_distance ?X ?Y = Suc (min (min a b) c)"
        using edit_distance_mismatch [OF ne, of ?X' ?Y'] di dj by (simp add: a_def b_def c_def)
      have m1: "min (min a b) c \<le> 1" using D less.prems(2) by linarith
      have a_lo: "int (length ?X') - int (length ?Y) \<le> int a" "int (length ?Y) - int (length ?X') \<le> int a"
        unfolding a_def using length_diff_le_edit_distance [of ?X' ?Y] by blast+
      have b_lo: "int (length ?X) - int (length ?Y') \<le> int b" "int (length ?Y') - int (length ?X) \<le> int b"
        unfolding b_def using length_diff_le_edit_distance [of ?X ?Y'] by blast+
      have c_lo: "int (length ?X') - int (length ?Y') \<le> int c"
        unfolding c_def using length_diff_le_edit_distance [of ?X' ?Y'] by blast
      have net_d: "int (length seq1 - (i + 1)) - int (length seq2 - i) = ?L - 1"
        using il jl by linarith
      have net_i: "int (length seq1 - i) - int (length seq2 - (i + 1)) = ?L + 1"
        using il jl by linarith
      have net_r: "int (length seq1 - (i + 1)) - int (length seq2 - (i + 1)) = ?L"
        using il jl by linarith
      let ?G = ?thesis
      have use: "\<And>model i2 j2. model \<in> set (catalogue ?L) \<Longrightarrow> fc_step model 1 i i = (i2, j2)
          \<Longrightarrow> Suc (edit_distance (drop i2 seq1) (drop j2 seq2)) = edit_distance ?X ?Y
          \<Longrightarrow> (edit_distance (drop i2 seq1) (drop j2 seq2) = 1 \<longrightarrow>
                int (length seq1 - i2) - int (length seq2 - j2) = op_net (model ! 1))
          \<Longrightarrow> ?G"
      proof -
        fix model i2 j2
        assume mem: "model \<in> set (catalogue ?L)" and st: "fc_step model 1 i i = (i2, j2)"
          and e: "Suc (edit_distance (drop i2 seq1) (drop j2 seq2)) = edit_distance ?X ?Y"
          and n: "edit_distance (drop i2 seq1) (drop j2 seq2) = 1 \<longrightarrow>
                int (length seq1 - i2) - int (length seq2 - j2) = op_net (model ! 1)"
        have le1: "edit_distance (drop i2 seq1) (drop j2 seq2) \<le> 1"
          using e less.prems(2) by linarith
        have "\<exists>i' j' c'. fc_walk cmp seq1 seq2 False ldiff model i i 0 = Some (i', j', c')
          \<and> fc_finish model (length seq1) (length seq2) i' j' c' =
              Some (1 + int (edit_distance (drop i2 seq1) (drop j2 seq2)))"
          using fc_first_mismatch [OF assms(1) il jl ne st le1 n] .
        moreover have "1 + int (edit_distance (drop i2 seq1) (drop j2 seq2)) = int (edit_distance ?X ?Y)"
          using e by linarith
        ultimately show ?G using mem by auto
      qed
      consider (z) "?L = 0" | (o) "?L = 1" | (t) "?L = 2" using L0 L2 by linarith
      then show ?thesis
      proof cases
        case z
        have a1: "1 \<le> a" using a_lo(2) lX' lY z by linarith
        have b1: "1 \<le> b" using b_lo(1) lX lY' z by linarith
        show ?thesis
        proof (cases "c \<le> min a b")
          case True
          then have "Suc c = edit_distance ?X ?Y" using D by (simp add: min_def)
          moreover have "fc_step (''rr'' @ [NUL]) 1 i i = (i + 1, i + 1)"
            by (simp add: fc_step_def)
          moreover have "op_net ((''rr'' @ [NUL]) ! 1) = 0" by (simp add: op_net_def)
          ultimately show ?thesis
            using use [of "''rr'' @ [NUL]" "i + 1" "i + 1"] z net_r
            by (simp add: catalogue_def c_def)
        next
          case False
          then have mab: "min (min a b) c = min a b" by (simp add: min_def)
          then have ab1: "min a b = 1" using m1 a1 b1 by (simp add: min_def split: if_splits)
          show ?thesis
          proof (cases "a \<le> b")
            case True
            then have "a = 1" using ab1 by (simp add: min_def)
            then have "Suc a = edit_distance ?X ?Y" using D mab ab1 by simp
            moreover have "fc_step (''di'' @ [NUL]) 1 i i = (i + 1, i)"
              by (simp add: fc_step_def)
            moreover have "op_net ((''di'' @ [NUL]) ! 1) = -1" by (simp add: op_net_def)
            ultimately show ?thesis
              using use [of "''di'' @ [NUL]" "i + 1" i] z net_d
              by (simp add: catalogue_def a_def)
          next
            case False
            then have "b = 1" using ab1 by (simp add: min_def)
            then have "Suc b = edit_distance ?X ?Y" using D mab ab1 by simp
            moreover have "fc_step (''id'' @ [NUL]) 1 i i = (i, i + 1)"
              by (simp add: fc_step_def)
            moreover have "op_net ((''id'' @ [NUL]) ! 1) = 1" by (simp add: op_net_def)
            ultimately show ?thesis
              using use [of "''id'' @ [NUL]" i "i + 1"] z net_i
              by (simp add: catalogue_def b_def)
          qed
        qed
      next
        case o
        have b2: "2 \<le> b" using b_lo(1) lX lY' o by linarith
        have c1: "1 \<le> c" using c_lo lX' lY' o by linarith
        show ?thesis
        proof (cases "a \<le> c")
          case True
          then have "min (min a b) c = a" using m1 b2 by (simp add: min_def split: if_splits)
          then have "Suc a = edit_distance ?X ?Y" using D by simp
          moreover have "fc_step (''dr'' @ [NUL]) 1 i i = (i + 1, i)"
            by (simp add: fc_step_def)
          moreover have "op_net ((''dr'' @ [NUL]) ! 1) = 0" by (simp add: op_net_def)
          ultimately show ?thesis
            using use [of "''dr'' @ [NUL]" "i + 1" i] o net_d
            by (simp add: catalogue_def a_def)
        next
          case False
          then have "min (min a b) c = c" using m1 b2 by (simp add: min_def split: if_splits)
          then have "Suc c = edit_distance ?X ?Y" using D by simp
          moreover have "fc_step (''rd'' @ [NUL]) 1 i i = (i + 1, i + 1)"
            by (simp add: fc_step_def)
          moreover have "op_net ((''rd'' @ [NUL]) ! 1) = 1" by (simp add: op_net_def)
          ultimately show ?thesis
            using use [of "''rd'' @ [NUL]" "i + 1" "i + 1"] o net_r
            by (simp add: catalogue_def c_def)
        qed
      next
        case t
        have b3: "3 \<le> b" using b_lo(1) lX lY' t by linarith
        have c2: "2 \<le> c" using c_lo lX' lY' t by linarith
        have "min (min a b) c = a" using m1 b3 c2 by (simp add: min_def split: if_splits)
        then have "Suc a = edit_distance ?X ?Y" using D by simp
        moreover have "fc_step (''dd'' @ [NUL]) 1 i i = (i + 1, i)"
          by (simp add: fc_step_def)
        moreover have "op_net ((''dd'' @ [NUL]) ! 1) = 1" by (simp add: op_net_def)
        ultimately show ?thesis
          using use [of "''dd'' @ [NUL]" "i + 1" i] t net_d
          by (simp add: catalogue_def a_def)
      qed
    qed
  qed
qed


text \<open>The loop over the models keeps the smallest count reported.\<close>

lemma model_result_nonneg:
  assumes "faithful cmp" "model_result cmp seq1 seq2 tr ldiff model = Some r"
  shows "0 \<le> r"
proof -
  obtain i j c where "fc_walk cmp seq1 seq2 tr ldiff model 0 0 0 = Some (i, j, c)" "0 \<le> c"
    using fc_walk_total [OF assms(1), of 0 seq1 seq2 tr ldiff model 0 0] by auto
  then show ?thesis using assms(2) fc_finish_nonneg [of c model "length seq1" "length seq2" i j r]
    by (simp add: model_result_def)
qed

lemma fc_models_unfold:
  assumes "faithful cmp"
  shows "fc_models cmp seq1 seq2 tr ldiff models m res =
     (if m \<ge> 0 then
        fc_models cmp seq1 seq2 tr ldiff models (m - 1)
          (case model_result cmp seq1 seq2 tr ldiff (models ! nat m) of
             None \<Rightarrow> res
           | Some c' \<Rightarrow> if c' < res then c' else res)
      else (if res = 3 then -1 else res))"
proof -
  obtain i j c where w: "fc_walk cmp seq1 seq2 tr ldiff (models ! nat m) 0 0 0 = Some (i, j, c)"
    using fc_walk_total [OF assms, of 0 seq1 seq2 tr ldiff "models ! nat m" 0 0] by auto
  show ?thesis
    by (subst fc_models.simps) (simp add: w model_result_def split: option.splits)
qed

lemma fc_models_done:
  "\<not> m \<ge> 0 \<Longrightarrow>
   fc_models cmp seq1 seq2 tr ldiff models m res = (if res = 3 then -1 else res)"
  by (subst fc_models.simps) simp

lemma fc_models_le:
  assumes "faithful cmp"
  shows "0 \<le> res \<Longrightarrow> res \<le> 2 \<Longrightarrow>
    0 \<le> fc_models cmp seq1 seq2 tr ldiff models m res
    \<and> fc_models cmp seq1 seq2 tr ldiff models m res \<le> res"
proof (induction "nat (m + 1)" arbitrary: m res)
  case 0
  then have "\<not> m \<ge> 0" by linarith
  then show ?case using "0.prems" by (simp add: fc_models_done)
next
  case (Suc n)
  then have m: "m \<ge> 0" by linarith
  define res' where "res' = (case model_result cmp seq1 seq2 tr ldiff (models ! nat m) of
             None \<Rightarrow> res | Some c' \<Rightarrow> if c' < res then c' else res)"
  have r: "0 \<le> res' \<and> res' \<le> res"
    using Suc.prems model_result_nonneg [OF assms, of seq1 seq2 tr ldiff "models ! nat m"]
    by (auto simp: res'_def split: option.splits)
  have n: "n = nat (m - 1 + 1)" using Suc.hyps(2) by linarith
  have "0 \<le> fc_models cmp seq1 seq2 tr ldiff models (m - 1) res'
    \<and> fc_models cmp seq1 seq2 tr ldiff models (m - 1) res' \<le> res'"
    using Suc.hyps(1) [OF n, of res'] r Suc.prems by linarith
  moreover have "fc_models cmp seq1 seq2 tr ldiff models m res =
      fc_models cmp seq1 seq2 tr ldiff models (m - 1) res'"
    using m by (subst fc_models_unfold [OF assms]) (simp add: res'_def [symmetric])
  ultimately show ?case using r by linarith
qed

lemma fc_models_lower:
  assumes "faithful cmp"
  shows "L \<le> res \<Longrightarrow>
    (\<forall>k. 0 \<le> k \<and> k \<le> m \<longrightarrow>
       (\<forall>r. model_result cmp seq1 seq2 tr ldiff (models ! nat k) = Some r \<longrightarrow> L \<le> r)) \<Longrightarrow>
    fc_models cmp seq1 seq2 tr ldiff models m res = -1
    \<or> L \<le> fc_models cmp seq1 seq2 tr ldiff models m res"
proof (induction "nat (m + 1)" arbitrary: m res)
  case 0
  then have "\<not> m \<ge> 0" by linarith
  then show ?case using "0.prems" by (simp add: fc_models_done)
next
  case (Suc n)
  then have m: "m \<ge> 0" by linarith
  define res' where "res' = (case model_result cmp seq1 seq2 tr ldiff (models ! nat m) of
             None \<Rightarrow> res | Some c' \<Rightarrow> if c' < res then c' else res)"
  have "\<forall>r. model_result cmp seq1 seq2 tr ldiff (models ! nat m) = Some r \<longrightarrow> L \<le> r"
    using Suc.prems(2) [rule_format, of m] m by simp
  then have r: "L \<le> res'"
    using Suc.prems(1) by (auto simp: res'_def split: option.splits)
  have n: "n = nat (m - 1 + 1)" using Suc.hyps(2) by linarith
  have rest: "\<forall>k. 0 \<le> k \<and> k \<le> m - 1 \<longrightarrow>
       (\<forall>r. model_result cmp seq1 seq2 tr ldiff (models ! nat k) = Some r \<longrightarrow> L \<le> r)"
  proof (intro allI impI)
    fix k r
    assume "0 \<le> k \<and> k \<le> m - 1" "model_result cmp seq1 seq2 tr ldiff (models ! nat k) = Some r"
    then show "L \<le> r" using Suc.prems(2) [rule_format, of k r] by simp
  qed
  have "fc_models cmp seq1 seq2 tr ldiff models (m - 1) res' = -1
    \<or> L \<le> fc_models cmp seq1 seq2 tr ldiff models (m - 1) res'"
    using Suc.hyps(1) [OF n r rest] .
  moreover have "fc_models cmp seq1 seq2 tr ldiff models m res =
      fc_models cmp seq1 seq2 tr ldiff models (m - 1) res'"
    using m by (subst fc_models_unfold [OF assms]) (simp add: res'_def [symmetric])
  ultimately show ?case by simp
qed

lemma fc_models_upper:
  assumes "faithful cmp"
  shows "0 \<le> res \<Longrightarrow> 0 \<le> k \<Longrightarrow> k \<le> m
    \<Longrightarrow> model_result cmp seq1 seq2 tr ldiff (models ! nat k) = Some r \<Longrightarrow> r \<le> 2
    \<Longrightarrow> 0 \<le> fc_models cmp seq1 seq2 tr ldiff models m res
      \<and> fc_models cmp seq1 seq2 tr ldiff models m res \<le> r"
proof (induction "nat (m + 1)" arbitrary: m res)
  case 0
  then show ?case by linarith
next
  case (Suc n)
  then have m: "m \<ge> 0" by linarith
  define res' where "res' = (case model_result cmp seq1 seq2 tr ldiff (models ! nat m) of
             None \<Rightarrow> res | Some c' \<Rightarrow> if c' < res then c' else res)"
  have r0: "0 \<le> res'"
    using Suc.prems(1) model_result_nonneg [OF assms, of seq1 seq2 tr ldiff "models ! nat m"]
    by (auto simp: res'_def split: option.splits)
  have n: "n = nat (m - 1 + 1)" using Suc.hyps(2) by linarith
  have un: "fc_models cmp seq1 seq2 tr ldiff models m res =
      fc_models cmp seq1 seq2 tr ldiff models (m - 1) res'"
    using m by (subst fc_models_unfold [OF assms]) (simp add: res'_def [symmetric])
  show ?case
  proof (cases "k = m")
    case True
    then have "res' \<le> r" using Suc.prems(4) by (simp add: res'_def)
    then have "res' \<le> 2" "res' \<le> r" using Suc.prems(5) by simp_all
    then show ?thesis
      using fc_models_le [OF assms r0, of seq1 seq2 tr ldiff models "m - 1"] un by linarith
  next
    case False
    then have "k \<le> m - 1" using Suc.prems(3) by simp
    then show ?thesis
      using Suc.hyps(1) [OF n r0 Suc.prems(2) _ Suc.prems(4,5)] un by simp
  qed
qed

lemma fastcomp_catalogue:
  assumes "length s2 \<le> length s1"
  shows "fastcomp cmp s1 s2 tr =
     (if int (length s1) - int (length s2) \<le> 2 then
        fc_models cmp s1 s2 tr (int (length s1) - int (length s2))
          (catalogue (int (length s1) - int (length s2)))
          (int (length (catalogue (int (length s1) - int (length s2)))) - 1) 3
      else -1)"
  using assms by (auto simp: fastcomp_def catalogue_def Let_def)

lemma fastcomp_ordered:
  assumes "faithful cmp" "length s2 \<le> length s1"
  shows "fastcomp cmp s1 s2 False =
           (if edit_distance s1 s2 \<le> 2 then int (edit_distance s1 s2) else -1)"
proof -
  let ?L = "int (length s1) - int (length s2)"
  let ?D = "int (edit_distance s1 s2)"
  let ?ms = "catalogue ?L"
  let ?out = "fc_models cmp s1 s2 False ?L ?ms (int (length ?ms) - 1) 3"
  have LD: "?L \<le> ?D" using length_diff_le_edit_distance [of s1 s2] by blast
  show ?thesis
  proof (cases "?L \<le> 2")
    case False
    then show ?thesis using LD fastcomp_catalogue [OF assms(2), of cmp False] by simp
  next
    case True
    have fc: "fastcomp cmp s1 s2 False = ?out"
      using True fastcomp_catalogue [OF assms(2), of cmp False] by simp
    have sound: "\<And>L. L \<le> ?D \<Longrightarrow> \<forall>k. 0 \<le> k \<and> k \<le> int (length ?ms) - 1 \<longrightarrow>
       (\<forall>r. model_result cmp s1 s2 False ?L (?ms ! nat k) = Some r \<longrightarrow> L \<le> r)"
      using model_result_sound [OF assms(1), of s1 s2 ?L] by fastforce
    show ?thesis
    proof (cases "edit_distance s1 s2 \<le> 2")
      case D2: True
      obtain model i' j' c' where mem: "model \<in> set ?ms"
        and w: "fc_walk cmp s1 s2 False ?L model 0 0 0 = Some (i', j', c')"
        and f: "fc_finish model (length s1) (length s2) i' j' c' = Some ?D"
        using fc_complete [OF assms, of 0 ?L] D2 by auto
      have mr: "model_result cmp s1 s2 False ?L model = Some ?D"
        using w f by (simp add: model_result_def)
      obtain k where k: "k < length ?ms" "?ms ! k = model"
        using mem by (auto simp: in_set_conv_nth)
      have up: "0 \<le> ?out \<and> ?out \<le> ?D"
        using fc_models_upper [OF assms(1), of 3 "int k" "int (length ?ms) - 1" s1 s2 False ?L ?ms ?D]
          k mr D2 by simp
      have "?out = -1 \<or> ?D \<le> ?out"
        using fc_models_lower [OF assms(1), of ?D 3 "int (length ?ms) - 1" s1 s2 False ?L ?ms]
          sound [of ?D] D2 by simp
      then have "?out = ?D" using up by linarith
      then show ?thesis using fc D2 by simp
    next
      case D3: False
      have "?out = -1 \<or> 3 \<le> ?out"
        using fc_models_lower [OF assms(1), of 3 3 "int (length ?ms) - 1" s1 s2 False ?L ?ms]
          sound [of 3] D3 by simp
      moreover have "?out \<in> {-1, 0, 1, 2}"
        using fc_models_range [OF assms(1), of 3 s1 s2 False ?L ?ms "int (length ?ms) - 1"] by simp
      ultimately have "?out = -1" by auto
      then show ?thesis using fc D3 by simp
    qed
  qed
qed

lemma fastcomp_swap:
  "length s1 < length s2 \<Longrightarrow> fastcomp cmp s1 s2 tr = fastcomp cmp s2 s1 tr"
  by (simp add: fastcomp_def)

lemma fastcomp_value:
  assumes "faithful cmp"
  shows "fastcomp cmp A B False =
           (if edit_distance A B \<le> 2 then int (edit_distance A B) else -1)"
proof (cases "length A < length B")
  case True
  then show ?thesis
    using fastcomp_ordered [OF assms, of A B] fastcomp_swap [OF True, of cmp False]
    by (simp add: edit_distance_sym [of B A])
next
  case False
  then show ?thesis using fastcomp_ordered [OF assms, of B A] by simp
qed

lemma fastcomp_gap:
  assumes "2 < int (max (length A) (length B)) - int (min (length A) (length B))"
  shows "fastcomp cmp A B tr = -1"
  using assms by (auto simp: fastcomp_def Let_def)

text \<open>
  Claim C2.  With transpositions disabled and a faithful comparison, \<open>fastcomp\<close> returns
  the edit distance when it is 0, 1 or 2 and \<open>-1\<close> when it is larger; the uncapped
  \<open>levenshtein\<close> call returns that same distance.  When the lengths differ by more than 2
  the result is \<open>-1\<close> for any comparison, even one that would fail, and with or without
  transpositions: no element is looked at.
\<close>

theorem fastcomp_agreement:
  assumes "faithful cmp" "alloc 0"
  shows "fastcomp cmp A B False =
           (if edit_distance A B \<le> 2 then int (edit_distance A B) else -1)
       \<and> levenshtein stray cmp alloc A B (-1) = Some (int (edit_distance A B))
       \<and> (2 < int (max (length A) (length B)) - int (min (length A) (length B)) \<longrightarrow>
            fastcomp cmp' A B tr = -1)"
proof (intro conjI impI)
  show "fastcomp cmp A B False = (if edit_distance A B \<le> 2 then int (edit_distance A B) else -1)"
    using fastcomp_value [OF assms(1)] .
  show "levenshtein stray cmp alloc A B (-1) = Some (int (edit_distance A B))"
    using levenshtein_value [of cmp alloc "-1" stray A B] assms by simp
next
  assume "2 < int (max (length A) (length B)) - int (min (length A) (length B))"
  then show "fastcomp cmp' A B tr = -1" by (rule fastcomp_gap)
qed

theorem fastcomp_agreement_witness:
  "faithful (native_comp :: char comparator)
   \<and> fastcomp native_comp ''abc'' ''bac'' False = 2
   \<and> levenshtein None native_comp (\<lambda>n. True) ''abc'' ''bac'' (-1) = Some 2
   \<and> fastcomp native_comp ''abc'' ''xyz'' False = -1
   \<and> fastcomp (\<lambda>x y. -1) ''foo'' ''foobaz'' True = -1"
proof -
  have e: "edit_distance ''abc'' ''bac'' = 2" "edit_distance ''abc'' ''xyz'' = 3"
    by simp_all
  show ?thesis
    using fastcomp_agreement [of native_comp "\<lambda>n. True" "''abc''" "''bac''" None]
      fastcomp_agreement [of native_comp "\<lambda>n. True" "''abc''" "''xyz''" None]
      fastcomp_agreement [of native_comp "\<lambda>n. True" "''foo''" "''foobaz''" None
        "\<lambda>x y. -1" True]
      faithful_native [where ?'a = char]
    by (simp add: e)
qed

section \<open>The streaming comparators\<close>

lemma ilevenshtein_drain_list:
  assumes "\<forall>c\<in>set (it_itor state). \<exists>d. levenshtein stray cmp alloc (it_seq1 state) c (it_max_dist state) = Some d \<and> -1 \<le> d"
  shows "ilevenshtein_drain stray cmp alloc state =
     (List.map_filter
        (\<lambda>c. case levenshtein stray cmp alloc (it_seq1 state) c (it_max_dist state) of
                None \<Rightarrow> None
              | Some d \<Rightarrow> if d \<noteq> -1 then Some (d, c) else None)
        (it_itor state),
      Some StopIteration)"
  using assms
proof (induction "it_itor state" arbitrary: state)
  case Nil
  then have "ilevenshtein_next stray cmp alloc state = (Some StopIteration, state\<lparr>it_itor := []\<rparr>)"
    by (simp add: ilevenshtein_next_def)
  then show ?case using Nil(1) [symmetric]
    by (subst ilevenshtein_drain.simps) (simp add: List.map_filter_simps)
next
  case (Cons c cands)
  define state' where "state' = state\<lparr>it_itor := cands\<rparr>"
  have it: "it_itor state = c # cands" using Cons(2) by simp
  have st': "cands = it_itor state'" "it_seq1 state' = it_seq1 state"
    "it_max_dist state' = it_max_dist state"
    by (simp_all add: state'_def)
  obtain d where d: "levenshtein stray cmp alloc (it_seq1 state) c (it_max_dist state) = Some d"
    "-1 \<le> d"
    using Cons.prems it by auto
  have rest: "\<forall>c\<in>set (it_itor state'). \<exists>d. levenshtein stray cmp alloc (it_seq1 state') c
      (it_max_dist state') = Some d \<and> -1 \<le> d"
    using Cons.prems it by (simp add: state'_def)
  have IH: "ilevenshtein_drain stray cmp alloc state' =
     (List.map_filter
        (\<lambda>c. case levenshtein stray cmp alloc (it_seq1 state) c (it_max_dist state) of
                None \<Rightarrow> None
              | Some d \<Rightarrow> if d \<noteq> -1 then Some (d, c) else None)
        cands,
      Some StopIteration)"
    using Cons.hyps(1) [OF st'(1) rest] by (simp add: state'_def)
  show ?case
  proof (cases "d = -1")
    case True
    have "ilevenshtein_next stray cmp alloc state = ilevenshtein_next stray cmp alloc state'"
      using d True it by (simp add: ilevenshtein_next_def state'_def split: prod.splits)
    then have "ilevenshtein_drain stray cmp alloc state = ilevenshtein_drain stray cmp alloc state'"
      by (simp add: ilevenshtein_drain.simps [of stray cmp alloc state]
          ilevenshtein_drain.simps [of stray cmp alloc state'])
    then show ?thesis using IH d True it by (simp add: List.map_filter_simps)
  next
    case False
    have "ilevenshtein_next stray cmp alloc state = (Some (Yield d c), state')"
      using d False it by (simp add: ilevenshtein_next_def state'_def)
    then have "ilevenshtein_drain stray cmp alloc state =
        ((d, c) # fst (ilevenshtein_drain stray cmp alloc state'),
         snd (ilevenshtein_drain stray cmp alloc state'))"
      by (subst ilevenshtein_drain.simps) (simp split: prod.splits)
    then show ?thesis using IH d False it by (simp add: List.map_filter_simps)
  qed
qed

lemma ifastcomp_drain_list:
  assumes "\<forall>c\<in>set (it_itor state). fastcomp cmp (it_seq1 state) c (it_transpos state) \<noteq> -2"
  shows "ifastcomp_drain cmp state =
     (List.map_filter
        (\<lambda>c. if fastcomp cmp (it_seq1 state) c (it_transpos state) \<noteq> -1
              then Some (fastcomp cmp (it_seq1 state) c (it_transpos state), c) else None)
        (it_itor state),
      StopIteration)"
  using assms
proof (induction "it_itor state" arbitrary: state)
  case Nil
  then have "ifastcomp_next cmp state = (StopIteration, state\<lparr>it_itor := []\<rparr>)"
    by (simp add: ifastcomp_next_def)
  then show ?case using Nil(1) [symmetric]
    by (subst ifastcomp_drain.simps) (simp add: List.map_filter_simps)
next
  case (Cons c cands)
  define state' where "state' = state\<lparr>it_itor := cands\<rparr>"
  define d where "d = fastcomp cmp (it_seq1 state) c (it_transpos state)"
  have it: "it_itor state = c # cands" using Cons(2) by simp
  have st': "cands = it_itor state'" by (simp add: state'_def)
  have st'eq: "it_seq1 state' = it_seq1 state" "it_transpos state' = it_transpos state"
    by (simp_all add: state'_def)
  have d2: "d \<noteq> -2" using Cons.prems it by (simp add: d_def)
  have rest: "\<forall>c\<in>set (it_itor state'). fastcomp cmp (it_seq1 state') c (it_transpos state') \<noteq> -2"
    using Cons.prems it by (simp add: state'_def)
  have IH: "ifastcomp_drain cmp state' =
     (List.map_filter
        (\<lambda>c. if fastcomp cmp (it_seq1 state) c (it_transpos state) \<noteq> -1
              then Some (fastcomp cmp (it_seq1 state) c (it_transpos state), c) else None)
        cands,
      StopIteration)"
    using Cons.hyps(1) [OF st' rest] unfolding st'eq by (simp add: state'_def)
  show ?case
  proof (cases "d = -1")
    case True
    have "ifastcomp_next cmp state = ifastcomp_next cmp state'"
      using True it d2
      by (simp add: ifastcomp_next_def state'_def d_def [symmetric] Let_def split: prod.splits)
    then have "ifastcomp_drain cmp state = ifastcomp_drain cmp state'"
      by (simp add: ifastcomp_drain.simps [of cmp state] ifastcomp_drain.simps [of cmp state'])
    then show ?thesis using IH True it by (simp add: List.map_filter_simps d_def [symmetric])
  next
    case False
    have "ifastcomp_next cmp state = (Yield d c, state')"
      using d2 False it by (simp add: ifastcomp_next_def state'_def d_def [symmetric] Let_def)
    then have "ifastcomp_drain cmp state =
        ((d, c) # fst (ifastcomp_drain cmp state'), snd (ifastcomp_drain cmp state'))"
      by (subst ifastcomp_drain.simps) (simp split: prod.splits)
    then show ?thesis using IH False it by (simp add: List.map_filter_simps d_def [symmetric])
  qed
qed

text \<open>
  Claim C9.  With a faithful comparison and a successful allocation, draining
  \<open>ilevenshtein\<close> over a finite list of candidates yields, in the order of the source, the
  pairs of distance and candidate of exactly those candidates whose capped call does not
  return \<open>-1\<close>, and draining \<open>ifast_comp\<close> yields those whose \<open>fastcomp\<close> result is 0, 1 or
  2; both then stop normally, the others are skipped, and no yielded distance is negative.
\<close>

theorem streaming_filter:
  assumes "faithful cmp" "alloc 0" "0 \<le> it_max_dist state \<longrightarrow> stray \<noteq> None"
  shows "ilevenshtein_drain stray cmp alloc state =
           (List.map_filter
              (\<lambda>c. case levenshtein stray cmp alloc (it_seq1 state) c (it_max_dist state) of
                      None \<Rightarrow> None
                    | Some d \<Rightarrow> if d \<noteq> -1 then Some (d, c) else None)
              (it_itor state),
            Some StopIteration)
       \<and> ifastcomp_drain cmp state =
           (List.map_filter
              (\<lambda>c. if fastcomp cmp (it_seq1 state) c (it_transpos state) \<in> {0, 1, 2}
                    then Some (fastcomp cmp (it_seq1 state) c (it_transpos state), c) else None)
              (it_itor state),
            StopIteration)
       \<and> (\<forall>p\<in>set (fst (ilevenshtein_drain stray cmp alloc state)). 0 \<le> fst p)
       \<and> (\<forall>p\<in>set (fst (ifastcomp_drain cmp state)). fst p \<in> {0, 1, 2})"
proof -
  have lev: "\<And>c. levenshtein stray cmp alloc (it_seq1 state) c (it_max_dist state) =
      Some (if it_max_dist state \<ge> 0 \<and> int (edit_distance (it_seq1 state) c) > it_max_dist state
            then -1 else int (edit_distance (it_seq1 state) c))"
    using levenshtein_value [of cmp alloc "it_max_dist state" stray "it_seq1 state"] assms by blast
  have ok: "\<forall>c\<in>set (it_itor state). \<exists>d. levenshtein stray cmp alloc (it_seq1 state) c
      (it_max_dist state) = Some d \<and> -1 \<le> d"
    by (simp add: lev)
  have l: "ilevenshtein_drain stray cmp alloc state =
           (List.map_filter
              (\<lambda>c. case levenshtein stray cmp alloc (it_seq1 state) c (it_max_dist state) of
                      None \<Rightarrow> None
                    | Some d \<Rightarrow> if d \<noteq> -1 then Some (d, c) else None)
              (it_itor state),
            Some StopIteration)"
    using ilevenshtein_drain_list [OF ok] .
  have rng: "\<And>c. fastcomp cmp (it_seq1 state) c (it_transpos state) \<in> {-1, 0, 1, 2}"
    using fastcomp_range [OF assms(1)] .
  have ne2: "\<forall>c\<in>set (it_itor state). fastcomp cmp (it_seq1 state) c (it_transpos state) \<noteq> -2"
  proof
    fix c
    show "fastcomp cmp (it_seq1 state) c (it_transpos state) \<noteq> -2" using rng [of c] by auto
  qed
  have cond: "\<And>c. (fastcomp cmp (it_seq1 state) c (it_transpos state) \<noteq> -1) =
      (fastcomp cmp (it_seq1 state) c (it_transpos state) \<in> {0, 1, 2})"
  proof -
    fix c
    show "(fastcomp cmp (it_seq1 state) c (it_transpos state) \<noteq> -1) =
      (fastcomp cmp (it_seq1 state) c (it_transpos state) \<in> {0, 1, 2})"
      using rng [of c] by auto
  qed
  have f: "ifastcomp_drain cmp state =
           (List.map_filter
              (\<lambda>c. if fastcomp cmp (it_seq1 state) c (it_transpos state) \<in> {0, 1, 2}
                    then Some (fastcomp cmp (it_seq1 state) c (it_transpos state), c) else None)
              (it_itor state),
            StopIteration)"
    using ifastcomp_drain_list [OF ne2] unfolding cond .
  have l3: "\<forall>p\<in>set (fst (ilevenshtein_drain stray cmp alloc state)). 0 \<le> fst p"
    unfolding l by (auto simp: List.map_filter_def lev split: if_splits)
  have f3: "\<forall>p\<in>set (fst (ifastcomp_drain cmp state)). fst p \<in> {0, 1, 2}"
    unfolding f by (auto simp: List.map_filter_def split: if_splits)
  show ?thesis using l f l3 f3 by blast
qed

theorem streaming_filter_witness:
  "faithful (native_comp :: char comparator)
   \<and> ilevenshtein_drain (Some 0) native_comp (\<lambda>n. True)
        \<lparr>it_itor = [''fo'', ''bar'', ''foo''], it_seq1 = ''foo'', it_transpos = False,
         it_max_dist = 1\<rparr>
      = ([(1, ''fo''), (0, ''foo'')], Some StopIteration)
   \<and> ifastcomp_drain native_comp
        \<lparr>it_itor = [''fo'', ''bar'', ''foo''], it_seq1 = ''foo'', it_transpos = False,
         it_max_dist = 1\<rparr>
      = ([(1, ''fo''), (0, ''foo'')], StopIteration)"
proof -
  have l: "levenshtein (Some 0) native_comp (\<lambda>n. True) ''foo'' ''fo'' 1 = Some 1"
    "levenshtein (Some 0) native_comp (\<lambda>n. True) ''foo'' ''bar'' 1 = Some (-1)"
    "levenshtein (Some 0) native_comp (\<lambda>n. True) ''foo'' ''foo'' 1 = Some 0"
    by (simp_all add: levenshtein_def lev_rows.simps lev_row.simps minimum_def minimum_loop.simps
        column_at_def MIN3_def native_comp_def)
  have f: "fastcomp native_comp ''foo'' ''fo'' False = 1"
    "fastcomp native_comp ''foo'' ''bar'' False = -1"
    "fastcomp native_comp ''foo'' ''foo'' False = 0"
    by (simp_all add: fastcomp_def fc_models.simps fc_walk.simps fc_finish_def fc_step_def
        bool_int_def NUL_def native_comp_def Let_def)
  show ?thesis
    using streaming_filter [of native_comp "\<lambda>n. True"
        "\<lparr>it_itor = [''fo'', ''bar'', ''foo''], it_seq1 = ''foo'', it_transpos = False,
         it_max_dist = 1\<rparr>" "Some 0"] faithful_native [where ?'a = char]
    by (simp add: List.map_filter_simps l f)
qed

section \<open>Where the wrappers depart from their contract\<close>

text \<open>
  Claim C3.  Two non-empty sequences without a common element: no cell matches, \<open>mlen\<close>
  keeps its initial value \<open>-1\<close>, and that value is returned as the length, although the
  longest common run has length 0 (as the empty second sequence gives).
\<close>

theorem lcs_length_without_match:
  "lcsubstrings native_comp (\<lambda>n. True) ''a'' ''b'' = Some ([], -1)
   \<and> lcsubstrings_py native_comp (\<lambda>n. True) ''a'' ''b'' True = Inr (Positions (-1) [])
   \<and> max_run ''a'' ''b'' = 0
   \<and> lcsubstrings native_comp (\<lambda>n. True) ''a'' [] = Some ([], 0)"
  by (simp add: lcsubstrings_py_def lcsubstrings_py_make_tuple_def lcsubstrings_def lcs_rows.simps
      lcs_row.simps native_comp_def max_run_def cells_def run_def)

text \<open>
  Claim C5.  A first argument shorter than the second: the wrapper swaps the operands and
  builds the pairs from the swapped ones, so the first component indexes the caller's
  second sequence.  Sliced over the caller's sequences in the documented order the pair
  does not give equal substrings; in the other order it does.
\<close>

theorem lcs_positions_after_swap:
  "lcsubstrings_py native_comp (\<lambda>n. True) ''ab'' ''xab'' True = Inr (Positions 2 [(1, 0)])
   \<and> get_slice ''ab'' 1 3 \<noteq> get_slice ''xab'' 0 2
   \<and> get_slice ''xab'' 1 3 = get_slice ''ab'' 0 2"
  by (simp add: lcsubstrings_py_def lcsubstrings_py_make_tuple_def lcsubstrings_def lcs_rows.simps
      lcs_row.simps native_comp_def get_slice_def)

text \<open>
  Claim C6.  A failed allocation under method 1 comes back from \<open>levenshtein\<close> as \<open>-2\<close>,
  which \<open>nlevenshtein_py\<close> takes for a failed comparison; a failed comparison in
  \<open>lcsubstrings\<close> comes back as \<open>NULL\<close>, which \<open>lcsubstrings_py\<close> takes for a failed
  allocation.  Method 2 and \<open>levenshtein_py\<close> keep the two apart.
\<close>

theorem error_sentinels_conflated:
  "nlevenshtein_py None native_comp (\<lambda>n. False) ''a'' ''b'' 1 = Some (Inl ComparisonFailed)
   \<and> lcsubstrings_py (\<lambda>x y. -1) (\<lambda>n. True) ''a'' ''b'' True = Inl OutOfMemory
   \<and> nlevenshtein_py None native_comp (\<lambda>n. False) ''a'' ''b'' 2 = Some (Inl OutOfMemory)
   \<and> nlevenshtein_py None (\<lambda>x y. -1) (\<lambda>n. True) ''a'' ''b'' 2 = Some (Inl ComparisonFailed)
   \<and> levenshtein_py None native_comp (\<lambda>n. False) ''a'' ''b'' False (-1) = Some (Inl OutOfMemory)
   \<and> levenshtein_py None (\<lambda>x y. -1) (\<lambda>n. True) ''a'' ''b'' False (-1) = Some (Inl ComparisonFailed)"
  by (simp add: nlevenshtein_py_def nlevenshtein_def levenshtein_py_def levenshtein_def
      lev_rows.simps lev_row.simps nlev_rows.simps nlev_row.simps lcsubstrings_py_def
      lcsubstrings_def lcs_rows.simps lcs_row.simps native_comp_def)

end
